theory Spec2Isabelle
  imports Main "HOL-Library.Word"
begin

section \<open>Strings of the source language\<close>

text \<open>
  The extension is written in TypeScript. A string of the language is a sequence of
  16-bit code units: \<open>length\<close>, \<open>split\<close>, \<open>trimEnd\<close>, the index of a match and
  the character classes of a regular expression without the \<open>u\<close> flag all work on
  code units. A string is therefore a list of 16-bit words here, and \<open>js\<close> writes an
  ASCII literal as such a list.
\<close>

type_synonym code_unit = "16 word"

type_synonym jsstring = "code_unit list"

definition js :: "string \<Rightarrow> jsstring" where
  "js s = map of_char s"

text \<open>
  The separators the source splits at, by their code: \<open>(\<close> is 0x28, \<open>)\<close> is
  0x29 and the line feed is 0x0A.
\<close>

abbreviation (input) LPAREN :: code_unit where
  "LPAREN \<equiv> 0x28"

abbreviation (input) RPAREN :: code_unit where
  "RPAREN \<equiv> 0x29"

abbreviation (input) NEWLINE :: code_unit where
  "NEWLINE \<equiv> 0x0A"

text \<open>
  \<open>s.split(sep)\<close> for a separator of one code unit: the pieces of \<open>s\<close> between the
  occurrences of the separator, in order. The result always has a first element: the
  empty string splits into one empty piece.
\<close>

function split_on :: "code_unit \<Rightarrow> jsstring \<Rightarrow> jsstring list" where
  "split_on sep s =
     (case dropWhile (\<lambda>c. c \<noteq> sep) s of
        [] \<Rightarrow> [s]
      | _ # rest \<Rightarrow> takeWhile (\<lambda>c. c \<noteq> sep) s # split_on sep rest)"
  by pat_completeness auto
termination
proof (relation "measure (\<lambda>(sep, s). length s)")
  fix sep :: code_unit and s rest :: jsstring and c :: code_unit
  assume "dropWhile (\<lambda>c. c \<noteq> sep) s = c # rest"
  then have "Suc (length rest) \<le> length s"
    using length_dropWhile_le [of "\<lambda>c. c \<noteq> sep" s] by simp
  then show "((sep, rest), (sep, s)) \<in> measure (\<lambda>(sep, s). length s)"
    by simp
qed simp

declare split_on.simps [simp del]

text \<open>
  \<open>xs[i]\<close> on an array: the element, or \<open>undefined\<close> (here \<open>None\<close>) beyond the
  end.
\<close>

definition index :: "'a list \<Rightarrow> nat \<Rightarrow> 'a option" where
  "index xs i = (if i < length xs then Some (xs ! i) else None)"

text \<open>
  \<open>trimEnd\<close> removes the trailing code units that are white space or line terminators
  of the language: tab, line feed, vertical tab, form feed, carriage return, space,
  no-break space, the byte order mark and the Unicode space separators, all of which
  are single code units.
\<close>

definition white_space :: "code_unit \<Rightarrow> bool" where
  "white_space c =
     (c \<in> {0x09, 0x0A, 0x0B, 0x0C, 0x0D, 0x20, 0xA0, 0x1680, 0x2028, 0x2029, 0x202F,
           0x205F, 0x3000, 0xFEFF}
      \<or> (0x2000 \<le> c \<and> c \<le> 0x200A))"

definition trimEnd :: "jsstring \<Rightarrow> jsstring" where
  "trimEnd s = rev (dropWhile white_space (rev s))"

text \<open>
  What the code can throw. \<open>TypeError\<close> is the run-time error of calling a method on
  \<open>undefined\<close>; \<open>InvalidManPage\<close> is the string
  \<^verbatim>\<open>Can't create final FoldingRange: invalid man page\<close> that the folding provider
  throws itself.
\<close>

datatype error = TypeError | InvalidManPage

section \<open>Parsing an apropos line\<close>

record ManEntry =
  name :: jsstring
  sect :: jsstring

text \<open>
  \<^verbatim>\<open>
  const parts = apropos.split('(')
  return { name: parts[0].trimEnd(), section: parts[1].split(')')[0] }
  \<close>
  \<open>parts[1]\<close> is \<open>undefined\<close> when the line has no opening parenthesis, and calling
  \<open>split\<close> on it throws. The two reads at index 0 are reads of the first element of a
  split, which always exists (\<open>split_on_not_Nil\<close> below). The field \<open>section\<close> of
  the source is \<open>sect\<close> here.
\<close>

definition parseManEntry :: "jsstring \<Rightarrow> error + ManEntry" where
  "parseManEntry apropos =
     (let parts = split_on LPAREN apropos in
      case index parts 0 of
        None \<Rightarrow> Inl TypeError
      | Some p0 \<Rightarrow>
          (case index parts 1 of
             None \<Rightarrow> Inl TypeError
           | Some p1 \<Rightarrow> Inr \<lparr>name = trimEnd p0, sect = hd (split_on RPAREN p1)\<rparr>))"

text \<open>
  Modelled from the spec: the address of a page is the string
  \<^verbatim>\<open>man:<name> (<section>)\<close>. The source has no function that builds it from an
  entry: the command \<^verbatim>\<open>manuals.man\<close> concatenates \<^verbatim>\<open>'man:'\<close> and the start of the
  chosen apropos line, up to its closing parenthesis.
\<close>

definition format_path :: "ManEntry \<Rightarrow> jsstring" where
  "format_path e = name e @ js '' ('' @ sect e @ js '')''"

definition format_address :: "ManEntry \<Rightarrow> jsstring" where
  "format_address e = js ''man:'' @ format_path e"

section \<open>Regular expressions of the source\<close>

text \<open>
  The two regular expressions of the source have neither the \<open>i\<close> nor the \<open>u\<close>
  flag, so their classes are classes of ASCII code units: \<open>[A-Z]\<close> is 0x41 to 0x5A,
  \<open>[a-z]\<close> is 0x61 to 0x7A, \<open>\d\<close> is 0x30 to 0x39 and \<open>\w\<close> is a letter, a digit
  or the underscore 0x5F.
\<close>

definition upper :: "code_unit \<Rightarrow> bool" where
  "upper c = (0x41 \<le> c \<and> c \<le> 0x5A)"

definition lower :: "code_unit \<Rightarrow> bool" where
  "lower c = (0x61 \<le> c \<and> c \<le> 0x7A)"

definition digit :: "code_unit \<Rightarrow> bool" where
  "digit c = (0x30 \<le> c \<and> c \<le> 0x39)"

definition word_char :: "code_unit \<Rightarrow> bool" where
  "word_char c = (upper c \<or> lower c \<or> digit c \<or> c = 0x5F)"

text \<open>\<^verbatim>\<open>[\w-]\<close>: a word character or the hyphen 0x2D.\<close>

definition word_hyphen :: "code_unit \<Rightarrow> bool" where
  "word_hyphen c = (word_char c \<or> c = 0x2D)"

text \<open>
  \<^verbatim>\<open>[A-Z"_.:']\<close>: an upper-case letter, the double quote 0x22, the underscore, the
  period 0x2E, the colon 0x3A or the apostrophe 0x27.
\<close>

definition heading_first :: "code_unit \<Rightarrow> bool" where
  "heading_first c = (upper c \<or> c \<in> {0x22, 0x5F, 0x2E, 0x3A, 0x27})"

text \<open>
  \<^verbatim>\<open>[A-Za-z"_.:' ,-]\<close>: a letter of either case, one of the five signs above, the
  space 0x20, the comma 0x2C or the hyphen.
\<close>

definition heading_rest :: "code_unit \<Rightarrow> bool" where
  "heading_rest c =
     (upper c \<or> lower c \<or> c \<in> {0x22, 0x5F, 0x2E, 0x3A, 0x27, 0x20, 0x2C, 0x2D})"

text \<open>
  A class under \<open>+\<close> is greedy: it first takes every code unit of the class that
  stands at the start of the input and then, while the rest of the pattern does not
  match what follows, gives them back one at a time, down to one. \<open>plus_then cls
  cont cs\<close> is the number of code units the class takes in the end, where \<open>cont\<close> says
  whether the rest of the pattern matches at the start of a string.
\<close>

fun backtrack :: "(jsstring \<Rightarrow> bool) \<Rightarrow> nat \<Rightarrow> jsstring \<Rightarrow> nat option" where
  "backtrack cont 0 cs = None"
| "backtrack cont (Suc k) cs =
     (if cont (drop (Suc k) cs) then Some (Suc k) else backtrack cont k cs)"

definition plus_then ::
  "(code_unit \<Rightarrow> bool) \<Rightarrow> (jsstring \<Rightarrow> bool) \<Rightarrow> jsstring \<Rightarrow> nat option" where
  "plus_then cls cont cs = backtrack cont (length (takeWhile cls cs)) cs"

section \<open>Document links\<close>

text \<open>
  \<^verbatim>\<open>/[a-z][\w-]+\(\d\)/g\<close>. \<open>xref_tail\<close> is the end of the pattern,
  \<^verbatim>\<open>\(\d\)\<close>, at the start of a string; \<open>xref_at s\<close> is the length of the match that
  starts at the first code unit of \<open>s\<close>, if there is one.
\<close>

definition xref_tail :: "jsstring \<Rightarrow> bool" where
  "xref_tail r =
     (case r of
        a # b # c # _ \<Rightarrow> a = LPAREN \<and> digit b \<and> c = RPAREN
      | _ \<Rightarrow> False)"

definition xref_at :: "jsstring \<Rightarrow> nat option" where
  "xref_at s =
     (case s of
        [] \<Rightarrow> None
      | c # cs \<Rightarrow>
          if lower c then map_option (\<lambda>k. 1 + k + 3) (plus_then word_hyphen xref_tail cs)
          else None)"

text \<open>
  \<^verbatim>\<open>lines[i].matchAll(...)\<close>: the matches of the global expression in one line, each
  as the pair of \<open>match.index\<close> and \<open>match[0].length\<close>. The search for the next match
  starts at \<open>lastIndex\<close>, here \<open>i\<close>: it is over when \<open>lastIndex\<close> is beyond the end
  of the line and otherwise tries the start indices in turn. After a match
  \<open>lastIndex\<close> is the end of the match, one more after an empty match.
\<close>

function matchAll_from :: "jsstring \<Rightarrow> nat \<Rightarrow> (nat \<times> nat) list" where
  "matchAll_from s i =
     (if length s < i then []
      else case xref_at (drop i s) of
             None \<Rightarrow> matchAll_from s (Suc i)
           | Some n \<Rightarrow> (i, n) # matchAll_from s (if n = 0 then Suc i else i + n))"
  by pat_completeness auto
termination
  by (relation "measure (\<lambda>(s, i). Suc (length s) - i)") auto

declare matchAll_from.simps [simp del]

text \<open>
  A position of the editor and \<open>pos.translate(lineDelta, characterDelta)\<close>.
\<close>

record Position =
  line :: nat
  character :: nat

definition translate :: "Position \<Rightarrow> nat \<Rightarrow> nat \<Rightarrow> Position" where
  "translate pos lineDelta characterDelta =
     \<lparr>line = line pos + lineDelta, character = character pos + characterDelta\<rparr>"

text \<open>
  A link of the editor: the two ends of its range, \<open>range.start\<close> and \<open>range.end\<close>
  (here \<open>stop\<close>), and its target.
  \<^verbatim>\<open>
  let uri = vscode.Uri.parse('man:' + match)
  const pos = new vscode.Position(i, match.index ?? 0)
  const link = new vscode.DocumentLink(new vscode.Range(pos, pos.translate(0, match[0].length)), uri)
  \<close>
  The target is kept as the string that is parsed into the URI; \<open>match\<close> in it is the
  matched text, the expression having no groups.
\<close>

record DocumentLink =
  start :: Position
  stop :: Position
  target :: jsstring

definition link_of :: "nat \<Rightarrow> jsstring \<Rightarrow> nat \<times> nat \<Rightarrow> DocumentLink" where
  "link_of i l m =
     (let pos = \<lparr>line = i, character = fst m\<rparr>
      in \<lparr>start = pos, stop = translate pos 0 (snd m),
          target = js ''man:'' @ take (snd m) (drop (fst m) l)\<rparr>)"

text \<open>
  \<^verbatim>\<open>
  const lines = document.getText().split('\n')
  for (let i = 0; i < lines.length; i++) {
      const matches = lines[i].matchAll(/[a-z][\w-]+\(\d\)/g)
      for (const match of matches) { ... result.push(link) }
  }
  \<close>
  The outer loop from line \<open>i\<close> on, over the lines that are left.
\<close>

fun links_from :: "nat \<Rightarrow> jsstring list \<Rightarrow> DocumentLink list" where
  "links_from i [] = []"
| "links_from i (l # ls) = map (link_of i l) (matchAll_from l 0) @ links_from (Suc i) ls"

definition provideDocumentLinks :: "jsstring \<Rightarrow> DocumentLink list" where
  "provideDocumentLinks doc = links_from 0 (split_on NEWLINE doc)"

text \<open>
  A document as the sequence of its lines: the lines put together again, with a line
  feed between each line and the next.
\<close>

fun join_lines :: "jsstring list \<Rightarrow> jsstring" where
  "join_lines [] = []"
| "join_lines [l] = l"
| "join_lines (l # l' # ls) = l @ NEWLINE # join_lines (l' # ls)"

text \<open>
  The pattern of a cross-reference in the words of the spec: one lower-case letter, one
  or more word characters or hyphens, \<open>(\<close>, one digit, \<open>)\<close>.
\<close>

definition is_xref :: "jsstring \<Rightarrow> bool" where
  "is_xref w \<longleftrightarrow>
     (\<exists>x body d. w = x # body @ [LPAREN, d, RPAREN]
        \<and> lower x \<and> body \<noteq> [] \<and> list_all word_hyphen body \<and> digit d)"

text \<open>
  The pattern occurs in the line \<open>l\<close> at column \<open>c\<close> with length \<open>n\<close>. A match of
  the scan is an occurrence that no occurrence starting further left reaches into: the
  scan goes from left to right and takes up again after the end of each match.
\<close>

definition occurs :: "jsstring \<Rightarrow> nat \<Rightarrow> nat \<Rightarrow> bool" where
  "occurs l c n \<longleftrightarrow> c + n \<le> length l \<and> is_xref (take n (drop c l))"

definition lexical_match :: "jsstring \<Rightarrow> nat \<Rightarrow> nat \<Rightarrow> bool" where
  "lexical_match l c n \<longleftrightarrow>
     occurs l c n \<and> \<not> (\<exists>c' n'. c' < c \<and> c < c' + n' \<and> occurs l c' n')"

section \<open>Folding ranges\<close>

text \<open>
  \<^verbatim>\<open>lines[i].match(/^[A-Z"_.:'][A-Za-z"_.:' ,-]+$/)\<close>. Without the \<open>m\<close> flag \<open>^\<close>
  holds at the start of the line only and \<open>$\<close> at its end only, so the one place a
  match can start is the first code unit, and the rest of the pattern after the class
  under \<open>+\<close> matches the empty string alone.
\<close>

definition is_heading :: "jsstring \<Rightarrow> bool" where
  "is_heading l =
     (case l of
        [] \<Rightarrow> False
      | c # cs \<Rightarrow> heading_first c \<and> plus_then heading_rest (\<lambda>r. r = []) cs \<noteq> None)"

text \<open>
  A folding range of the editor, from its first to its last line. Every range the
  provider builds has the kind \<open>Region\<close>, which is left out.
\<close>

record FoldingRange =
  startLine :: int
  endLine :: int

text \<open>
  \<^verbatim>\<open>
  let foldStart = 2
  for (let i = 3; i < lines.length; i++) {
      const match = lines[i].match(...)
      if (match) {
          result.push(new vscode.FoldingRange(foldStart, i - 1, ...))
          foldStart = i
      }
  }
  \<close>
  The loop from index \<open>i\<close> on, with the values of \<open>foldStart\<close> and \<open>result\<close> as
  they are on entry; it returns both as they are on exit.
\<close>

function fold_loop ::
  "jsstring list \<Rightarrow> nat \<Rightarrow> int \<Rightarrow> FoldingRange list \<Rightarrow> int \<times> FoldingRange list" where
  "fold_loop lines i foldStart result =
     (if i < length lines then
        (if is_heading (lines ! i)
         then fold_loop lines (Suc i) (int i)
                (result @ [\<lparr>startLine = foldStart, endLine = int i - 1\<rparr>])
         else fold_loop lines (Suc i) foldStart result)
      else (foldStart, result))"
  by pat_completeness auto
termination
  by (relation "measure (\<lambda>(lines, i, foldStart, result). length lines - i)") auto

declare fold_loop.simps [simp del]

text \<open>
  \<^verbatim>\<open>
  const lines = document.getText().split('\n')
  ...
  const to = lines.length - 4
  if (foldStart >= to)
      throw "Can't create final FoldingRange: invalid man page"
  result.push(new vscode.FoldingRange(foldStart, to, ...))
  return result
  \<close>
  \<open>to\<close> is negative on a document of fewer than four lines, so the line numbers are
  integers.
\<close>

definition provideFoldingRanges :: "jsstring \<Rightarrow> error + FoldingRange list" where
  "provideFoldingRanges doc =
     (let lines = split_on NEWLINE doc;
          (foldStart, result) = fold_loop lines 3 2 [];
          to = int (length lines) - 4
      in if foldStart \<ge> to then Inl InvalidManPage
         else Inr (result @ [\<lparr>startLine = foldStart, endLine = to\<rparr>]))"

text \<open>
  The indices of the lines the loop takes for headings, in order, and the last of them,
  or 2 where there is none: the value of \<open>foldStart\<close> after the loop.
\<close>

definition heading_lines :: "jsstring list \<Rightarrow> nat list" where
  "heading_lines ls = filter (\<lambda>i. is_heading (ls ! i)) [3..<length ls]"

definition last_heading :: "jsstring list \<Rightarrow> int" where
  "last_heading ls = (if heading_lines ls = [] then 2 else int (last (heading_lines ls)))"

text \<open>
  The ranges the loop pushes when it starts with \<open>foldStart = a\<close> and meets headings
  at the indices \<open>hs\<close>: each ends on the line before the next heading.
\<close>

fun closed :: "int \<Rightarrow> nat list \<Rightarrow> FoldingRange list" where
  "closed a [] = []"
| "closed a (h # hs) = \<lparr>startLine = a, endLine = int h - 1\<rparr> # closed (int h) hs"

text \<open>
  The heading rule in the words of the spec, to compare with \<open>is_heading\<close>: a first
  character that is an upper-case letter, double quote, underscore, period, colon or
  apostrophe; every later character one of these or a space, comma or hyphen; at least
  one character.
\<close>

definition claimed_heading :: "jsstring \<Rightarrow> bool" where
  "claimed_heading l \<longleftrightarrow>
     1 \<le> length l
     \<and> (upper (hd l) \<or> hd l \<in> {0x22, 0x5F, 0x2E, 0x3A, 0x27})
     \<and> list_all (\<lambda>c. upper c \<or> c \<in> {0x22, 0x5F, 0x2E, 0x3A, 0x27, 0x20, 0x2C, 0x2D}) (tl l)"

section \<open>Facts about splitting and trimming\<close>

lemma dropWhile_absent: "sep \<notin> set s \<Longrightarrow> dropWhile (\<lambda>c. c \<noteq> sep) s = []"
  by (induction s) auto

lemma takeWhile_absent: "sep \<notin> set s \<Longrightarrow> takeWhile (\<lambda>c. c \<noteq> sep) s = s"
  by (induction s) auto

lemma dropWhile_present: "sep \<in> set s \<Longrightarrow> dropWhile (\<lambda>c. c \<noteq> sep) s \<noteq> []"
  by (induction s) auto

lemma split_on_absent: "sep \<notin> set s \<Longrightarrow> split_on sep s = [s]"
  by (subst split_on.simps) (simp add: dropWhile_absent)

lemma split_on_present:
  assumes "sep \<in> set s"
  shows "split_on sep s =
    takeWhile (\<lambda>c. c \<noteq> sep) s # split_on sep (tl (dropWhile (\<lambda>c. c \<noteq> sep) s))"
proof (cases "dropWhile (\<lambda>c. c \<noteq> sep) s")
  case Nil
  with dropWhile_present [OF assms] show ?thesis
    by simp
next
  case (Cons c rest)
  then show ?thesis
    by (subst split_on.simps) simp
qed

lemma split_on_not_Nil: "split_on sep s \<noteq> []"
  by (cases "sep \<in> set s") (simp_all add: split_on_absent split_on_present)

lemma hd_split_on: "hd (split_on sep s) = takeWhile (\<lambda>c. c \<noteq> sep) s"
  by (cases "sep \<in> set s") (simp_all add: split_on_absent split_on_present takeWhile_absent)

lemma takeWhile_twice:
  "takeWhile P (takeWhile Q xs) = takeWhile (\<lambda>x. Q x \<and> P x) xs"
  by (induction xs) auto

lemma index_split_on_0: "index (split_on sep s) 0 = Some (takeWhile (\<lambda>c. c \<noteq> sep) s)"
  using split_on_not_Nil [of sep s] hd_split_on [of sep s]
  by (cases "split_on sep s") (auto simp: index_def)

lemma index_split_on_1:
  "index (split_on sep s) 1 =
     (if sep \<in> set s
      then Some (takeWhile (\<lambda>c. c \<noteq> sep) (tl (dropWhile (\<lambda>c. c \<noteq> sep) s)))
      else None)"
proof (cases "sep \<in> set s")
  case True
  then show ?thesis
    using index_split_on_0 [of sep "tl (dropWhile (\<lambda>c. c \<noteq> sep) s)"]
    by (simp add: split_on_present index_def split: if_splits)
next
  case False
  then show ?thesis by (simp add: split_on_absent index_def)
qed

lemma parseManEntry_eq:
  "parseManEntry l =
     (if LPAREN \<in> set l
      then Inr \<lparr>name = trimEnd (takeWhile (\<lambda>c. c \<noteq> LPAREN) l),
                sect = takeWhile (\<lambda>c. c \<noteq> LPAREN \<and> c \<noteq> RPAREN)
                         (tl (dropWhile (\<lambda>c. c \<noteq> LPAREN) l))\<rparr>
      else Inl TypeError)"
  unfolding parseManEntry_def Let_def index_split_on_0 index_split_on_1
  by (simp add: hd_split_on takeWhile_twice)

section \<open>The parser\<close>

lemma trimEnd_subset: "set (trimEnd s) \<subseteq> set s"
  unfolding trimEnd_def using set_dropWhileD [of _ white_space "rev s"] by auto

lemma trimEnd_snoc: "trimEnd (s @ [c]) = (if white_space c then trimEnd s else s @ [c])"
  by (simp add: trimEnd_def)

lemma trimEnd_end: "trimEnd s = [] \<or> \<not> white_space (last (trimEnd s))"
proof (cases "dropWhile white_space (rev s)")
  case Nil
  then show ?thesis by (simp add: trimEnd_def)
next
  case (Cons c cs)
  then have "\<not> white_space c"
    using hd_dropWhile [of white_space "rev s"] by simp
  with Cons show ?thesis by (simp add: trimEnd_def)
qed

lemma trimEnd_id: "trimEnd s = s \<longleftrightarrow> s = [] \<or> \<not> white_space (last s)"
proof (cases s rule: rev_cases)
  case Nil
  then show ?thesis by (simp add: trimEnd_def)
next
  case (snoc xs x)
  show ?thesis
  proof (cases "white_space x")
    case True
    have "length (trimEnd xs) \<le> length xs"
      by (simp add: trimEnd_def length_dropWhile_le [of white_space "rev xs", simplified])
    then have "trimEnd xs \<noteq> xs @ [x]"
      by (auto dest: arg_cong [where f = length])
    with True snoc show ?thesis by (simp add: trimEnd_snoc)
  next
    case False
    with snoc show ?thesis by (simp add: trimEnd_snoc)
  qed
qed

lemma white_space_space: "white_space (0x20)"
  by (simp add: white_space_def)

lemma takeWhile_stop:
  "\<forall>x\<in>set xs. P x \<Longrightarrow> \<not> P y \<Longrightarrow> takeWhile P (xs @ y # ys) = xs"
  by (induction xs) auto

lemma dropWhile_stop:
  "\<forall>x\<in>set xs. P x \<Longrightarrow> \<not> P y \<Longrightarrow> dropWhile P (xs @ y # ys) = y # ys"
  by (induction xs) auto

lemma parseManEntry_shape:
  assumes "LPAREN \<notin> set h"
  shows "parseManEntry (h @ LPAREN # t) =
    Inr \<lparr>name = trimEnd h, sect = takeWhile (\<lambda>c. c \<noteq> LPAREN \<and> c \<noteq> RPAREN) t\<rparr>"
proof -
  from assms have *: "\<forall>x\<in>set h. x \<noteq> LPAREN" by auto
  show ?thesis
    by (simp add: parseManEntry_eq takeWhile_stop [OF *] dropWhile_stop [OF *])
qed

lemma parseManEntry_Inr:
  "parseManEntry l = Inr e \<Longrightarrow>
     name e = trimEnd (takeWhile (\<lambda>c. c \<noteq> LPAREN) l)
     \<and> LPAREN \<notin> set (name e)
     \<and> (name e = [] \<or> \<not> white_space (last (name e)))
     \<and> LPAREN \<notin> set (sect e) \<and> RPAREN \<notin> set (sect e)
     \<and> (\<exists>rest. l = takeWhile (\<lambda>c. c \<noteq> LPAREN) l @ LPAREN # sect e @ rest
            \<and> (rest = [] \<or> hd rest = LPAREN \<or> hd rest = RPAREN))"
proof -
  let ?h = "takeWhile (\<lambda>c. c \<noteq> LPAREN) l"
  let ?d = "dropWhile (\<lambda>c. c \<noteq> LPAREN) l"
  let ?P = "\<lambda>c. c \<noteq> LPAREN \<and> c \<noteq> RPAREN"
  assume a: "parseManEntry l = Inr e"
  then have in_l: "LPAREN \<in> set l"
    by (simp add: parseManEntry_eq split: if_splits)
  with a have nm: "name e = trimEnd ?h" and sc: "sect e = takeWhile ?P (tl ?d)"
    by (auto simp: parseManEntry_eq)
  have "LPAREN \<notin> set ?h"
    using set_takeWhileD [of LPAREN "\<lambda>c. c \<noteq> LPAREN" l] by blast
  with trimEnd_subset [of ?h] nm have n1: "LPAREN \<notin> set (name e)"
    by auto
  from nm trimEnd_end [of ?h] have n2: "name e = [] \<or> \<not> white_space (last (name e))"
    by simp
  have s1: "LPAREN \<notin> set (sect e) \<and> RPAREN \<notin> set (sect e)"
    unfolding sc using set_takeWhileD [of _ ?P "tl ?d"] by blast
  from in_l have "?d \<noteq> []"
    by (simp add: dropWhile_present)
  moreover have "?d \<noteq> [] \<Longrightarrow> hd ?d = LPAREN"
    using hd_dropWhile [of "\<lambda>c. c \<noteq> LPAREN" l] by simp
  ultimately have d: "?d = LPAREN # tl ?d"
    by (cases ?d) auto
  have "l = ?h @ ?d"
    by simp
  also have "?d = LPAREN # takeWhile ?P (tl ?d) @ dropWhile ?P (tl ?d)"
    using d by simp
  finally have l: "l = ?h @ LPAREN # sect e @ dropWhile ?P (tl ?d)"
    by (simp add: sc)
  have "dropWhile ?P (tl ?d) = [] \<or> hd (dropWhile ?P (tl ?d)) = LPAREN
      \<or> hd (dropWhile ?P (tl ?d)) = RPAREN"
    using hd_dropWhile [of ?P "tl ?d"] by blast
  with l nm n1 n2 s1 show ?thesis
    by blast
qed

subsection \<open>Lines without an opening parenthesis\<close>

text \<open>
  Claim C1, as the code has it. On a line without \<open>(\<close> the parser returns no entry:
  \<open>parts[1]\<close> is \<open>undefined\<close> and the call of \<open>split\<close> on it throws the
  \<open>TypeError\<close> of the run time. The code checks nothing itself and has no error of
  its own for a malformed line.
\<close>

theorem parseManEntry_no_paren:
  "LPAREN \<notin> set l \<Longrightarrow> parseManEntry l = Inl TypeError"
  by (simp add: parseManEntry_eq)

theorem parseManEntry_no_paren_witness:
  "LPAREN \<notin> set (js ''whatis'') \<and> parseManEntry (js ''whatis'') = Inl TypeError"
proof -
  have h: "LPAREN \<notin> set (js ''whatis'')"
    by (simp add: js_def)
  show ?thesis
    using h parseManEntry_no_paren [OF h] by simp
qed

text \<open>
  Claim C1 as stated has the parser fail with an error of its own, \<open>MalformedEntry\<close>,
  rather than crash. The parser raises no error itself: a line without \<open>(\<close> ends in
  the \<open>TypeError\<close> of the run time.
\<close>

theorem parseManEntry_no_paren_counterexample:
  "parseManEntry (js ''ls - list directory contents'') = Inl TypeError"
  by (simp add: parseManEntry_def split_on.simps index_def js_def)

subsection \<open>Well-formed lines\<close>

text \<open>
  Claim C5, as the code has it. On a line \<open><name> (<section>) <description>\<close> whose
  name has no \<open>(\<close> and whose section has no parenthesis, the parser returns the name
  with its trailing white space removed (\<open>trimEnd\<close>: white space in front of the name
  stays) and the section, which is the text before the first \<open>)\<close>. On the line
  \<^verbatim>\<open>foo-bar (3) some description\<close> it returns the name \<^verbatim>\<open>foo-bar\<close> and the section
  \<^verbatim>\<open>3\<close>.
\<close>

theorem parseManEntry_well_formed:
  "(LPAREN \<notin> set n \<and> LPAREN \<notin> set s \<and> RPAREN \<notin> set s \<longrightarrow>
      parseManEntry (n @ js '' ('' @ s @ js '') '' @ d) = Inr \<lparr>name = trimEnd n, sect = s\<rparr>)
   \<and> parseManEntry (js ''foo-bar (3) some description'') =
        Inr \<lparr>name = js ''foo-bar'', sect = js ''3''\<rparr>"
proof (intro conjI impI)
  assume a: "LPAREN \<notin> set n \<and> LPAREN \<notin> set s \<and> RPAREN \<notin> set s"
  then have n: "LPAREN \<notin> set (n @ [0x20])" by simp
  from a have s: "\<forall>x\<in>set s. x \<noteq> LPAREN \<and> x \<noteq> RPAREN" by auto
  have "parseManEntry ((n @ [0x20]) @ LPAREN # (s @ RPAREN # 0x20 # d)) =
      Inr \<lparr>name = trimEnd (n @ [0x20]), sect = s\<rparr>"
    unfolding parseManEntry_shape [OF n] using takeWhile_stop [OF s, of RPAREN] by simp
  then show "parseManEntry (n @ js '' ('' @ s @ js '') '' @ d) = Inr \<lparr>name = trimEnd n, sect = s\<rparr>"
    by (simp add: js_def trimEnd_snoc white_space_space)
next
  show "parseManEntry (js ''foo-bar (3) some description'') =
        Inr \<lparr>name = js ''foo-bar'', sect = js ''3''\<rparr>"
    by (simp add: parseManEntry_eq js_def trimEnd_def white_space_def)
qed

theorem parseManEntry_well_formed_witness:
  "parseManEntry (js ''  ls (1) - list directory contents'') =
     Inr \<lparr>name = js ''  ls'', sect = js ''1''\<rparr>"
  using parseManEntry_well_formed [of "js ''  ls''" "js ''1''" "js ''- list directory contents''"]
  by (simp add: js_def trimEnd_def white_space_def)

text \<open>
  Claim C5 as stated has the white space in front of the name removed too. The parser
  keeps it.
\<close>

theorem parseManEntry_keeps_leading_space:
  "parseManEntry (js '' ls (1) - list directory contents'') =
     Inr \<lparr>name = js '' ls'', sect = js ''1''\<rparr>
   \<and> parseManEntry (js '' ls (1) - list directory contents'') \<noteq>
     Inr \<lparr>name = js ''ls'', sect = js ''1''\<rparr>"
  by (simp add: parseManEntry_def split_on.simps index_def js_def trimEnd_def white_space_def)

subsection \<open>The entries the parser returns\<close>

text \<open>
  Claim C6 as stated fails on four lines: the name is empty where the line starts with
  \<open>(\<close>; the name keeps a \<open>)\<close> that stands before the first \<open>(\<close>; a section is
  returned where no \<open>)\<close> follows the first \<open>(\<close>; and where a second \<open>(\<close> comes
  before the \<open>)\<close>, the section stops at it, short of the text between the first
  \<open>(\<close> and the following \<open>)\<close>.
\<close>

theorem parseManEntry_invariant_counterexample:
  "parseManEntry (js ''(1) - x'') = Inr \<lparr>name = [], sect = js ''1''\<rparr>
   \<and> parseManEntry (js ''a)b (1) - x'') = Inr \<lparr>name = js ''a)b'', sect = js ''1''\<rparr>
   \<and> parseManEntry (js ''ls (1'') = Inr \<lparr>name = js ''ls'', sect = js ''1''\<rparr>
   \<and> parseManEntry (js ''ls (3(x) - d'') = Inr \<lparr>name = js ''ls'', sect = js ''3''\<rparr>"
  by (simp add: parseManEntry_def split_on.simps index_def js_def trimEnd_def white_space_def)

text \<open>
  Claim C6, as the code has it. Every entry the parser returns has a name without
  \<open>(\<close>: the text before the first \<open>(\<close> of the line, without its trailing white
  space. The name may be empty and may contain \<open>)\<close>. Its section has no parenthesis:
  it is the text after the first \<open>(\<close> up to the next parenthesis of either kind, or
  up to the end of the line when there is none. So where the next parenthesis is a
  \<open>)\<close>, the section is the exact text between the first \<open>(\<close> and that \<open>)\<close>.
\<close>

theorem parseManEntry_entry:
  "parseManEntry l = Inr e \<Longrightarrow>
     name e = trimEnd (takeWhile (\<lambda>c. c \<noteq> LPAREN) l)
     \<and> LPAREN \<notin> set (name e)
     \<and> LPAREN \<notin> set (sect e) \<and> RPAREN \<notin> set (sect e)
     \<and> (\<exists>rest. l = takeWhile (\<lambda>c. c \<noteq> LPAREN) l @ LPAREN # sect e @ rest
            \<and> (rest = [] \<or> hd rest = LPAREN \<or> hd rest = RPAREN))"
  using parseManEntry_Inr [of l e] by blast

theorem parseManEntry_entry_witness:
  "parseManEntry (js ''git-annotate (1) - annotate'') =
       Inr \<lparr>name = js ''git-annotate'', sect = js ''1''\<rparr>
   \<and> LPAREN \<notin> set (js ''git-annotate'') \<and> LPAREN \<notin> set (js ''1'')
   \<and> RPAREN \<notin> set (js ''1'')"
proof -
  have h: "parseManEntry (js ''git-annotate (1) - annotate'') =
       Inr \<lparr>name = js ''git-annotate'', sect = js ''1''\<rparr>"
    by (simp add: parseManEntry_def split_on.simps index_def js_def trimEnd_def white_space_def)
  from parseManEntry_entry [OF h]
  have "LPAREN \<notin> set (name \<lparr>name = js ''git-annotate'', sect = js ''1''\<rparr>)
      \<and> LPAREN \<notin> set (sect \<lparr>name = js ''git-annotate'', sect = js ''1''\<rparr>)
      \<and> RPAREN \<notin> set (sect \<lparr>name = js ''git-annotate'', sect = js ''1''\<rparr>)"
    by blast
  with h show ?thesis
    by simp
qed

subsection \<open>Addresses\<close>

text \<open>
  Claim C4 as stated has every entry whose name has no parenthesis come back. The
  parser applied to the address itself takes the scheme for a part of the name, so
  what can come back is the parse of the path \<open><name> (<section>)\<close>, which is what
  the content provider parses (\<^verbatim>\<open>parseManEntry(uri.path)\<close>). Of the path, a name that
  ends in a space loses the space, and a section with a \<open>)\<close> inside is cut there.
\<close>

theorem address_round_trip_counterexample:
  "parseManEntry (format_address \<lparr>name = js ''ls'', sect = js ''1''\<rparr>) =
     Inr \<lparr>name = js ''man:ls'', sect = js ''1''\<rparr>
   \<and> parseManEntry (format_address \<lparr>name = js ''ls '', sect = js ''1''\<rparr>) =
     Inr \<lparr>name = js ''man:ls'', sect = js ''1''\<rparr>
   \<and> parseManEntry (format_path \<lparr>name = js ''ls '', sect = js ''1''\<rparr>) =
     Inr \<lparr>name = js ''ls'', sect = js ''1''\<rparr>
   \<and> parseManEntry (format_path \<lparr>name = js ''ls '', sect = js ''1''\<rparr>) \<noteq>
     Inr \<lparr>name = js ''ls '', sect = js ''1''\<rparr>
   \<and> parseManEntry (format_path \<lparr>name = js ''ls'', sect = js ''3)x''\<rparr>) =
     Inr \<lparr>name = js ''ls'', sect = js ''3''\<rparr>
   \<and> parseManEntry (format_path \<lparr>name = js ''ls'', sect = js ''3)x''\<rparr>) \<noteq>
     Inr \<lparr>name = js ''ls'', sect = js ''3)x''\<rparr>"
  by (simp add: format_address_def format_path_def parseManEntry_def
      split_on.simps index_def js_def trimEnd_def white_space_def)

text \<open>
  Claim C4, as the code has it. The URI type that takes an address apart belongs to
  the editor and is no part of this code, so \<open>uri_path\<close> stands for any function from
  an address to its path. Where the path of the address \<^verbatim>\<open>man:<name> (<section>)\<close> of
  an entry is \<open><name> (<section>)\<close>, parsing that path gives the entry back exactly
  when its name has no \<open>(\<close> and does not end in white space and its section has no
  parenthesis.
\<close>

theorem address_round_trip:
  fixes e :: ManEntry and uri_path :: "jsstring \<Rightarrow> jsstring"
  assumes path: "uri_path (format_address e) = format_path e"
  shows "parseManEntry (uri_path (format_address e)) = Inr e \<longleftrightarrow>
     LPAREN \<notin> set (name e) \<and> (name e = [] \<or> \<not> white_space (last (name e)))
     \<and> LPAREN \<notin> set (sect e) \<and> RPAREN \<notin> set (sect e)"
proof
  assume "parseManEntry (uri_path (format_address e)) = Inr e"
  from parseManEntry_Inr [OF this]
  show "LPAREN \<notin> set (name e) \<and> (name e = [] \<or> \<not> white_space (last (name e)))
     \<and> LPAREN \<notin> set (sect e) \<and> RPAREN \<notin> set (sect e)"
    by blast
next
  assume a: "LPAREN \<notin> set (name e) \<and> (name e = [] \<or> \<not> white_space (last (name e)))
     \<and> LPAREN \<notin> set (sect e) \<and> RPAREN \<notin> set (sect e)"
  then have h: "LPAREN \<notin> set (name e @ [0x20])"
    by simp
  from a have s: "\<forall>x\<in>set (sect e). x \<noteq> LPAREN \<and> x \<noteq> RPAREN"
    by auto
  from a have t: "trimEnd (name e) = name e"
    by (simp add: trimEnd_id)
  from parseManEntry_shape [OF h, of "sect e @ [RPAREN]"]
  have "parseManEntry (format_path e) =
      Inr \<lparr>name = trimEnd (name e @ [0x20]),
           sect = takeWhile (\<lambda>c. c \<noteq> LPAREN \<and> c \<noteq> RPAREN) (sect e @ [RPAREN])\<rparr>"
    by (simp add: format_path_def js_def)
  moreover have "trimEnd (name e @ [0x20]) = name e"
    using t by (simp add: trimEnd_snoc white_space_space)
  moreover have "takeWhile (\<lambda>c. c \<noteq> LPAREN \<and> c \<noteq> RPAREN) (sect e @ [RPAREN]) = sect e"
    using takeWhile_stop [OF s, of RPAREN "[]"] by simp
  ultimately have "parseManEntry (format_path e) = Inr e"
    by simp
  then show "parseManEntry (uri_path (format_address e)) = Inr e"
    by (simp add: path)
qed

theorem address_round_trip_witness:
  "drop 4 (format_address \<lparr>name = js ''git-annotate'', sect = js ''1''\<rparr>) =
     format_path \<lparr>name = js ''git-annotate'', sect = js ''1''\<rparr>
   \<and> parseManEntry (drop 4 (format_address \<lparr>name = js ''git-annotate'', sect = js ''1''\<rparr>)) =
     Inr \<lparr>name = js ''git-annotate'', sect = js ''1''\<rparr>"
proof -
  have h: "drop 4 (format_address \<lparr>name = js ''git-annotate'', sect = js ''1''\<rparr>) =
     format_path \<lparr>name = js ''git-annotate'', sect = js ''1''\<rparr>"
    by (simp add: format_address_def js_def)
  from address_round_trip [of "drop 4", OF h]
  have "parseManEntry (drop 4 (format_address \<lparr>name = js ''git-annotate'', sect = js ''1''\<rparr>)) =
     Inr \<lparr>name = js ''git-annotate'', sect = js ''1''\<rparr>"
    by (simp add: js_def white_space_def)
  with h show ?thesis
    by (rule conjI)
qed

section \<open>Headings\<close>

lemma backtrack_end:
  "backtrack (\<lambda>r. r = []) k cs \<noteq> None \<longleftrightarrow> 0 < k \<and> length cs \<le> k"
  by (induction k) auto

lemma length_takeWhile_full: "length cs \<le> length (takeWhile P cs) \<longleftrightarrow> list_all P cs"
  by (induction cs) auto

lemma plus_then_end:
  "plus_then cls (\<lambda>r. r = []) cs \<noteq> None \<longleftrightarrow> cs \<noteq> [] \<and> list_all cls cs"
proof -
  have "0 < length (takeWhile cls cs) \<and> length cs \<le> length (takeWhile cls cs)
      \<longleftrightarrow> cs \<noteq> [] \<and> list_all cls cs"
    unfolding length_takeWhile_full by (cases cs) auto
  then show ?thesis
    unfolding plus_then_def backtrack_end .
qed

lemma is_heading_iff:
  "is_heading l \<longleftrightarrow> 2 \<le> length l \<and> heading_first (hd l) \<and> list_all heading_rest (tl l)"
proof (cases l)
  case Nil
  then show ?thesis by (simp add: is_heading_def)
next
  case (Cons c cs)
  show ?thesis
    unfolding Cons is_heading_def list.case plus_then_end by (cases cs) auto
qed

text \<open>
  Claim C3 as stated admits no lower-case letter after the first character and takes a
  single character for a heading. The pattern has \<open>a-z\<close> in its second class, and its
  \<open>+\<close> asks for a second character.
\<close>

theorem is_heading_counterexample:
  "is_heading (js ''Options'') \<and> \<not> claimed_heading (js ''Options'')
   \<and> \<not> is_heading (js ''A'') \<and> claimed_heading (js ''A'')"
  by (simp add: is_heading_def plus_then_def claimed_heading_def js_def heading_first_def
      heading_rest_def upper_def lower_def)

text \<open>
  Claim C3, as the code has it. A line is a heading if and only if it has at least two
  characters, the first is an upper-case letter, double quote, underscore, period, colon
  or apostrophe, and every later one is a letter of either case, one of these five
  signs, a space, a comma or a hyphen.
\<close>

theorem is_heading_classes:
  "is_heading l \<longleftrightarrow>
     2 \<le> length l
     \<and> (upper (hd l) \<or> hd l \<in> {0x22, 0x5F, 0x2E, 0x3A, 0x27})
     \<and> list_all (\<lambda>c. upper c \<or> lower c
           \<or> c \<in> {0x22, 0x5F, 0x2E, 0x3A, 0x27, 0x20, 0x2C, 0x2D}) (tl l)"
proof -
  have "heading_rest = (\<lambda>c. upper c \<or> lower c
           \<or> c \<in> {0x22, 0x5F, 0x2E, 0x3A, 0x27, 0x20, 0x2C, 0x2D})"
    by (rule ext) (simp only: heading_rest_def)
  then show ?thesis
    by (simp only: is_heading_iff heading_first_def)
qed

theorem is_heading_classes_witness:
  "is_heading (js ''SEE ALSO'') \<and> \<not> is_heading (js ''see also'')"
  using is_heading_classes [of "js ''SEE ALSO''"] is_heading_classes [of "js ''see also''"]
  by (simp add: js_def upper_def lower_def)

section \<open>The folding provider\<close>

lemma fold_loop_eq:
  "fold_loop ls i fs res =
     (last (fs # map int (filter (\<lambda>j. is_heading (ls ! j)) [i..<length ls])),
      res @ closed fs (filter (\<lambda>j. is_heading (ls ! j)) [i..<length ls]))"
proof (induction ls i fs res rule: fold_loop.induct)
  case (1 lines i foldStart result)
  show ?case
  proof (cases "i < length lines")
    case False
    then show ?thesis
      by (subst fold_loop.simps) simp
  next
    case True
    then have upt: "[i..<length lines] = i # [Suc i..<length lines]"
      by (simp add: upt_conv_Cons)
    show ?thesis
    proof (cases "is_heading (lines ! i)")
      case True
      with \<open>i < length lines\<close> "1.IH"(1) show ?thesis
        by (subst fold_loop.simps) (simp add: upt)
    next
      case False
      with \<open>i < length lines\<close> "1.IH"(2) show ?thesis
        by (subst fold_loop.simps) (simp add: upt)
    qed
  qed
qed

lemma last_heading_eq: "last_heading ls = last (2 # map int (heading_lines ls))"
  by (simp add: last_heading_def last_map)

lemma provideFoldingRanges_eq:
  "provideFoldingRanges doc =
     (let ls = split_on NEWLINE doc; to = int (length ls) - 4
      in if last_heading ls \<ge> to then Inl InvalidManPage
         else Inr (closed 2 (heading_lines ls) @ [\<lparr>startLine = last_heading ls, endLine = to\<rparr>]))"
  by (simp add: provideFoldingRanges_def fold_loop_eq Let_def last_heading_eq heading_lines_def)

lemma closed_tiling:
  assumes "sorted_wrt (<) (a # map int hs @ [to])"
  defines "rs \<equiv> closed a hs @ [\<lparr>startLine = last (a # map int hs), endLine = to\<rparr>]"
  shows "rs \<noteq> [] \<and> startLine (hd rs) = a
    \<and> (\<forall>r\<in>set rs. a \<le> startLine r \<and> startLine r \<le> endLine r)
    \<and> sorted_wrt (\<lambda>r r'. endLine r < startLine r') rs
    \<and> (\<forall>k. Suc k < length rs \<longrightarrow> startLine (rs ! Suc k) = endLine (rs ! k) + 1)
    \<and> concat (map (\<lambda>r. [startLine r..endLine r]) rs) = [a..to]"
  using assms(1) unfolding rs_def
proof (induction hs arbitrary: a)
  case Nil
  then show ?case by simp
next
  case (Cons h hs)
  let ?rs = "closed (int h) hs @ [\<lparr>startLine = last (int h # map int hs), endLine = to\<rparr>]"
  from Cons.prems have ah: "a < int h" and hto: "int h < to"
    and srt: "sorted_wrt (<) (int h # map int hs @ [to])"
    by auto
  from Cons.IH [OF srt]
  have ne: "?rs \<noteq> []" and hd: "startLine (hd ?rs) = int h"
    and le: "\<forall>r\<in>set ?rs. int h \<le> startLine r \<and> startLine r \<le> endLine r"
    and ord: "sorted_wrt (\<lambda>r r'. endLine r < startLine r') ?rs"
    and adj: "\<forall>k. Suc k < length ?rs \<longrightarrow> startLine (?rs ! Suc k) = endLine (?rs ! k) + 1"
    and cover: "concat (map (\<lambda>r. [startLine r..endLine r]) ?rs) = [int h..to]"
    by blast+
  have eq: "closed a (h # hs) @ [\<lparr>startLine = last (a # map int (h # hs)), endLine = to\<rparr>]
      = \<lparr>startLine = a, endLine = int h - 1\<rparr> # ?rs"
    by simp
  have adj': "\<forall>k. Suc k < length (\<lparr>startLine = a, endLine = int h - 1\<rparr> # ?rs) \<longrightarrow>
      startLine ((\<lparr>startLine = a, endLine = int h - 1\<rparr> # ?rs) ! Suc k)
        = endLine ((\<lparr>startLine = a, endLine = int h - 1\<rparr> # ?rs) ! k) + 1"
  proof (intro allI impI)
    fix k
    assume k: "Suc k < length (\<lparr>startLine = a, endLine = int h - 1\<rparr> # ?rs)"
    show "startLine ((\<lparr>startLine = a, endLine = int h - 1\<rparr> # ?rs) ! Suc k)
        = endLine ((\<lparr>startLine = a, endLine = int h - 1\<rparr> # ?rs) ! k) + 1"
    proof (cases k)
      case 0
      with hd ne show ?thesis by (simp add: hd_conv_nth)
    next
      case (Suc k')
      with k adj show ?thesis by simp
    qed
  qed
  have "[a..to] = [a..int h - 1] @ [int h..to]"
    using ah hto upto_split2 [of a "int h - 1" to] by simp
  with cover have cover': "concat (map (\<lambda>r. [startLine r..endLine r])
      (\<lparr>startLine = a, endLine = int h - 1\<rparr> # ?rs)) = [a..to]"
    by simp
  from ah le have le': "\<forall>r\<in>set (\<lparr>startLine = a, endLine = int h - 1\<rparr> # ?rs).
      a \<le> startLine r \<and> startLine r \<le> endLine r"
    by auto
  from le ord have ord': "sorted_wrt (\<lambda>r r'. endLine r < startLine r')
      (\<lparr>startLine = a, endLine = int h - 1\<rparr> # ?rs)"
    by auto
  show ?case
    unfolding eq using adj' cover' le' ord' by simp
qed

lemma le_last_of_sorted:
  "sorted_wrt (<) (xs :: nat list) \<Longrightarrow> x \<in> set xs \<Longrightarrow> x \<le> last xs"
  by (induction xs) (auto simp: less_imp_le)

lemma heading_lines_sorted:
  assumes "last_heading ls < to"
  shows "sorted_wrt (<) (2 # map int (heading_lines ls) @ [to])"
proof -
  let ?hs = "heading_lines ls"
  have s: "sorted_wrt (<) ?hs"
    unfolding heading_lines_def by (rule sorted_wrt_filter) simp
  then have s': "sorted_wrt (<) (map int ?hs)"
    by (simp add: sorted_wrt_map)
  have lo: "\<forall>h\<in>set ?hs. 2 < int h"
    by (auto simp: heading_lines_def)
  have hi: "\<forall>h\<in>set ?hs. int h < to"
  proof
    fix h assume h: "h \<in> set ?hs"
    then have ne: "?hs \<noteq> []" by auto
    from s h have "h \<le> last ?hs"
      by (rule le_last_of_sorted)
    with assms ne show "int h < to"
      by (simp add: last_heading_def)
  qed
  have "2 < to"
  proof (cases "?hs = []")
    case True
    with assms show ?thesis by (simp add: last_heading_def)
  next
    case False
    then have "last ?hs \<in> set ?hs" by simp
    with lo hi show ?thesis by fastforce
  qed
  with s' lo hi show ?thesis
    by (auto simp: sorted_wrt_append)
qed

lemma fold_regions_tiling:
  assumes "provideFoldingRanges doc = Inr rs"
  shows "(\<forall>r\<in>set rs. startLine r \<le> endLine r)
    \<and> sorted_wrt (\<lambda>r r'. endLine r < startLine r') rs
    \<and> (\<forall>k. Suc k < length rs \<longrightarrow> startLine (rs ! Suc k) = endLine (rs ! k) + 1)
    \<and> concat (map (\<lambda>r. [startLine r..endLine r]) rs)
          = [2..int (length (split_on NEWLINE doc)) - 4]"
proof -
  let ?ls = "split_on NEWLINE doc"
  let ?to = "int (length ?ls) - 4"
  from assms have lt: "last_heading ?ls < ?to"
    and rs: "rs = closed 2 (heading_lines ?ls)
        @ [\<lparr>startLine = last (2 # map int (heading_lines ?ls)), endLine = ?to\<rparr>]"
    by (auto simp: provideFoldingRanges_eq Let_def last_heading_eq split: if_splits)
  from closed_tiling [OF heading_lines_sorted [OF lt]] show ?thesis
    unfolding rs by blast
qed

lemma filter_upt_last:
  assumes "a \<le> h" "h < n" "P h" "\<forall>j. h < j \<and> j < n \<longrightarrow> \<not> P j"
  shows "filter P [a..<n] = filter P [a..<h] @ [h]"
proof -
  from assms(1,2) have "[a..<n] = [a..<h] @ [h..<n]"
    using upt_add_eq_append [of a h "n - h"] by simp
  with assms(2) have "[a..<n] = [a..<h] @ h # [Suc h..<n]"
    by (simp add: upt_conv_Cons)
  moreover from assms(4) have "filter P [Suc h..<n] = []"
    by (auto simp: filter_empty_conv)
  ultimately show ?thesis
    using assms(3) by simp
qed

lemma filter_upt_none:
  "\<forall>j. a \<le> j \<and> j < n \<longrightarrow> \<not> P j \<Longrightarrow> filter P [a..<n] = []"
  by (auto simp: filter_empty_conv)

subsection \<open>Pages without a heading\<close>

text \<open>
  Claim C2 as stated has every page without a heading fail. The check before the last
  range compares \<open>foldStart\<close>, still 2, with the number of lines less four, so a page
  of seven lines or more passes it and folds as one range.
\<close>

theorem no_heading_counterexample:
  "provideFoldingRanges
     (js ''ls(1)\<newline>\<newline>name\<newline>  ls - list\<newline>\<newline>coreutils 9.4\<newline>'')
     = Inr [\<lparr>startLine = 2, endLine = 3\<rparr>]"
  by (simp add: provideFoldingRanges_def split_on.simps js_def fold_loop.simps is_heading_def
      plus_then_def heading_first_def heading_rest_def upper_def lower_def)

text \<open>
  Claim C2, as the code has it. A page on which no line from index 3 on is a heading
  fails with the invalid-page error when it has at most six lines; with seven lines or
  more the provider returns the single range from line 2 to the line four before the
  number of lines.
\<close>

theorem no_heading_result:
  "(\<forall>i. 3 \<le> i \<and> i < length (split_on NEWLINE doc) \<longrightarrow> \<not> is_heading (split_on NEWLINE doc ! i))
   \<Longrightarrow> provideFoldingRanges doc =
     (if length (split_on NEWLINE doc) \<le> 6 then Inl InvalidManPage
      else Inr [\<lparr>startLine = 2, endLine = int (length (split_on NEWLINE doc)) - 4\<rparr>])"
proof -
  let ?ls = "split_on NEWLINE doc"
  assume "\<forall>i. 3 \<le> i \<and> i < length ?ls \<longrightarrow> \<not> is_heading (?ls ! i)"
  then have "heading_lines ?ls = []"
    unfolding heading_lines_def by (rule filter_upt_none)
  then show ?thesis
    by (auto simp: provideFoldingRanges_eq Let_def last_heading_def)
qed

theorem no_heading_result_witness:
  "provideFoldingRanges (js ''ls(1)\<newline>\<newline>name\<newline>  ls - list'') = Inl InvalidManPage"
proof -
  have l: "split_on NEWLINE (js ''ls(1)\<newline>\<newline>name\<newline>  ls - list'')
      = [js ''ls(1)'', [], js ''name'', js ''  ls - list'']"
    by (simp add: split_on.simps js_def)
  have h: "\<forall>i. 3 \<le> i
      \<and> i < length (split_on NEWLINE (js ''ls(1)\<newline>\<newline>name\<newline>  ls - list''))
      \<longrightarrow> \<not> is_heading (split_on NEWLINE (js ''ls(1)\<newline>\<newline>name\<newline>  ls - list'') ! i)"
  proof (intro allI impI)
    fix i :: nat
    assume "3 \<le> i \<and> i < length (split_on NEWLINE (js ''ls(1)\<newline>\<newline>name\<newline>  ls - list''))"
    then have "i = 3"
      unfolding l by simp
    then show "\<not> is_heading (split_on NEWLINE (js ''ls(1)\<newline>\<newline>name\<newline>  ls - list'') ! i)"
      unfolding l
      by (simp add: is_heading_def js_def heading_first_def upper_def)
  qed
  show ?thesis
    using no_heading_result [OF h] by (simp add: l)
qed

subsection \<open>When folding fails\<close>

text \<open>
  Claim C10. The provider fails, with its invalid-page error, if and only if the index
  of the last heading from index 3 on, taken as 2 where there is none, is at least the
  number of lines less four. So a heading among the last four lines with no heading
  after it makes folding fail, whatever headings stand before it.
\<close>

theorem fold_fails_iff:
  "(provideFoldingRanges doc = Inl InvalidManPage \<longleftrightarrow>
      last_heading (split_on NEWLINE doc) \<ge> int (length (split_on NEWLINE doc)) - 4)
   \<and> provideFoldingRanges doc \<noteq> Inl TypeError
   \<and> (3 \<le> h \<and> h < length (split_on NEWLINE doc)
        \<and> int (length (split_on NEWLINE doc)) - 4 \<le> int h
        \<and> is_heading (split_on NEWLINE doc ! h)
        \<and> (\<forall>j. h < j \<and> j < length (split_on NEWLINE doc)
              \<longrightarrow> \<not> is_heading (split_on NEWLINE doc ! j))
      \<longrightarrow> provideFoldingRanges doc = Inl InvalidManPage)"
proof (intro conjI impI)
  let ?ls = "split_on NEWLINE doc"
  show iff: "provideFoldingRanges doc = Inl InvalidManPage \<longleftrightarrow>
      last_heading ?ls \<ge> int (length ?ls) - 4"
    by (simp add: provideFoldingRanges_eq Let_def)
  show "provideFoldingRanges doc \<noteq> Inl TypeError"
    by (simp add: provideFoldingRanges_eq Let_def)
  assume a: "3 \<le> h \<and> h < length ?ls \<and> int (length ?ls) - 4 \<le> int h
        \<and> is_heading (?ls ! h)
        \<and> (\<forall>j. h < j \<and> j < length ?ls \<longrightarrow> \<not> is_heading (?ls ! j))"
  then have "heading_lines ?ls = filter (\<lambda>i. is_heading (?ls ! i)) [3..<h] @ [h]"
    unfolding heading_lines_def by (intro filter_upt_last) auto
  then have "last_heading ?ls = int h"
    by (simp add: last_heading_def)
  with a iff show "provideFoldingRanges doc = Inl InvalidManPage"
    by simp
qed

theorem fold_fails_iff_witness:
  "provideFoldingRanges
     (js ''LS(1)\<newline>\<newline>NAME\<newline>HERE\<newline> text\<newline> text\<newline> text\<newline>SEE ALSO\<newline> text\<newline>\<newline>GNU\<newline>'')
   = Inl InvalidManPage"
proof -
  let ?doc = "js ''LS(1)\<newline>\<newline>NAME\<newline>HERE\<newline> text\<newline> text\<newline> text\<newline>SEE ALSO\<newline> text\<newline>\<newline>GNU\<newline>''"
  have l: "split_on NEWLINE ?doc =
      [js ''LS(1)'', [], js ''NAME'', js ''HERE'', js '' text'', js '' text'', js '' text'',
       js ''SEE ALSO'', js '' text'', [], js ''GNU'', []]"
    by (simp add: split_on.simps js_def)
  have "\<forall>j. 10 < j \<and> j < length (split_on NEWLINE ?doc)
      \<longrightarrow> \<not> is_heading (split_on NEWLINE ?doc ! j)"
  proof (intro allI impI)
    fix j :: nat
    assume "10 < j \<and> j < length (split_on NEWLINE ?doc)"
    then have "j = 11"
      unfolding l by simp
    then show "\<not> is_heading (split_on NEWLINE ?doc ! j)"
      unfolding l by (simp add: is_heading_def)
  qed
  moreover have "is_heading (split_on NEWLINE ?doc ! 10)"
    unfolding l
    by (simp add: is_heading_def plus_then_def js_def heading_first_def heading_rest_def upper_def)
  moreover have "(3::nat) \<le> 10 \<and> 10 < length (split_on NEWLINE ?doc)
      \<and> int (length (split_on NEWLINE ?doc)) - 4 \<le> int 10"
    unfolding l by simp
  ultimately show ?thesis
    using fold_fails_iff [of ?doc 10] by blast
qed

subsection \<open>The ranges of a page\<close>

text \<open>
  Claim C8. Where the provider succeeds, every range has its start at or before its
  end, a later range starts after the end of every earlier one, each range starts on
  the line after the end of the one before it, and the lines of the ranges, one range
  after the other, are the lines from 2 to the number of lines less four, each once.
  On a page whose headings from index 3 on are the lines 3 and 7, the ranges are
  \<open>[2, 2]\<close>, \<open>[3, 6]\<close> and \<open>[7, N - 4]\<close>.
\<close>

theorem fold_regions_partition:
  "(provideFoldingRanges doc = Inr rs \<longrightarrow>
      (\<forall>r\<in>set rs. startLine r \<le> endLine r)
      \<and> sorted_wrt (\<lambda>r r'. endLine r < startLine r') rs
      \<and> (\<forall>k. Suc k < length rs \<longrightarrow> startLine (rs ! Suc k) = endLine (rs ! k) + 1)
      \<and> concat (map (\<lambda>r. [startLine r..endLine r]) rs)
            = [2..int (length (split_on NEWLINE doc)) - 4])
   \<and> (provideFoldingRanges doc = Inr rs \<and> 7 < length (split_on NEWLINE doc)
        \<and> (\<forall>i. 3 \<le> i \<and> i < length (split_on NEWLINE doc) \<longrightarrow>
              is_heading (split_on NEWLINE doc ! i) = (i = 3 \<or> i = 7))
      \<longrightarrow> rs = [\<lparr>startLine = 2, endLine = 2\<rparr>, \<lparr>startLine = 3, endLine = 6\<rparr>,
                \<lparr>startLine = 7, endLine = int (length (split_on NEWLINE doc)) - 4\<rparr>])"
proof (intro conjI impI)
  let ?ls = "split_on NEWLINE doc"
  let ?P = "\<lambda>i. is_heading (?ls ! i)"
  assume a: "provideFoldingRanges doc = Inr rs \<and> 7 < length ?ls
        \<and> (\<forall>i. 3 \<le> i \<and> i < length ?ls \<longrightarrow> is_heading (?ls ! i) = (i = 3 \<or> i = 7))"
  then have "filter ?P [3..<length ?ls] = filter ?P [3..<7] @ [7]"
    by (intro filter_upt_last) auto
  moreover have "[3..<7] = [3, 4, 5, 6 :: nat]"
    by (simp add: upt_rec)
  moreover from a have "?P 3 \<and> \<not> ?P 4 \<and> \<not> ?P 5 \<and> \<not> ?P 6"
    by simp
  ultimately have "heading_lines ?ls = [3, 7]"
    by (simp add: heading_lines_def)
  with a show "rs = [\<lparr>startLine = 2, endLine = 2\<rparr>, \<lparr>startLine = 3, endLine = 6\<rparr>,
                \<lparr>startLine = 7, endLine = int (length ?ls) - 4\<rparr>]"
    by (auto simp: provideFoldingRanges_eq Let_def last_heading_def split: if_splits)
qed (use fold_regions_tiling [of doc rs] in blast)+

theorem fold_regions_partition_witness:
  "provideFoldingRanges
     (js ''LS(1)\<newline>\<newline>NAME\<newline>HERE\<newline> text\<newline> text\<newline> text\<newline>SEE ALSO\<newline> text\<newline>\<newline>GNU coreutils 9.4\<newline>'')
   = Inr [\<lparr>startLine = 2, endLine = 2\<rparr>, \<lparr>startLine = 3, endLine = 6\<rparr>,
          \<lparr>startLine = 7, endLine = 8\<rparr>]
   \<and> concat (map (\<lambda>r. [startLine r..endLine r])
        [\<lparr>startLine = 2, endLine = 2\<rparr>, \<lparr>startLine = 3, endLine = 6\<rparr>,
         \<lparr>startLine = 7, endLine = 8\<rparr>]) = [2..8]"
proof -
  let ?doc = "js ''LS(1)\<newline>\<newline>NAME\<newline>HERE\<newline> text\<newline> text\<newline> text\<newline>SEE ALSO\<newline> text\<newline>\<newline>GNU coreutils 9.4\<newline>''"
  have l: "split_on NEWLINE ?doc =
      [js ''LS(1)'', [], js ''NAME'', js ''HERE'', js '' text'', js '' text'', js '' text'',
       js ''SEE ALSO'', js '' text'', [], js ''GNU coreutils 9.4'', []]"
    by (simp add: split_on.simps js_def)
  have h: "\<forall>i. 3 \<le> i \<and> i < length (split_on NEWLINE ?doc) \<longrightarrow>
      is_heading (split_on NEWLINE ?doc ! i) = (i = 3 \<or> i = 7)"
  proof (intro allI impI)
    fix i :: nat
    assume "3 \<le> i \<and> i < length (split_on NEWLINE ?doc)"
    then consider "i = 3" | "i = 4" | "i = 5" | "i = 6" | "i = 7" | "i = 8" | "i = 9"
      | "i = 10" | "i = 11"
      unfolding l by (simp, arith)
    then show "is_heading (split_on NEWLINE ?doc ! i) = (i = 3 \<or> i = 7)"
      unfolding l
      by cases (simp_all add: is_heading_def plus_then_def js_def heading_first_def
          heading_rest_def upper_def lower_def)
  qed
  have n: "7 < length (split_on NEWLINE ?doc)"
    by (simp add: l)
  let ?rs = "[\<lparr>startLine = 2, endLine = 2\<rparr>, \<lparr>startLine = 3, endLine = 6\<rparr>,
          \<lparr>startLine = 7, endLine = 8\<rparr>]"
  have r: "provideFoldingRanges ?doc = Inr ?rs"
    by code_simp
  note part = fold_regions_partition [of ?doc ?rs]
  from part [THEN conjunct1, THEN mp, OF r]
  have cover: "concat (map (\<lambda>r. [startLine r..endLine r]) ?rs)
          = [2..int (length (split_on NEWLINE ?doc)) - 4]"
    by (elim conjE)
  from part [THEN conjunct2, THEN mp, OF conjI [OF r conjI [OF n h]]]
  have "?rs = [\<lparr>startLine = 2, endLine = 2\<rparr>, \<lparr>startLine = 3, endLine = 6\<rparr>,
          \<lparr>startLine = 7, endLine = int (length (split_on NEWLINE ?doc)) - 4\<rparr>]" .
  from cover have "concat (map (\<lambda>r. [startLine r..endLine r]) ?rs) = [2..8]"
    unfolding l by simp
  with r show ?thesis
    by (intro conjI)
qed

section \<open>The link provider\<close>

subsection \<open>The match at one place\<close>

lemma lower_word_hyphen: "lower c \<Longrightarrow> word_hyphen c"
  by (simp add: word_hyphen_def word_char_def)

lemma digit_word_hyphen: "digit c \<Longrightarrow> word_hyphen c"
  by (simp add: word_hyphen_def word_char_def)

lemma word_hyphen_not_paren: "word_hyphen c \<Longrightarrow> c \<noteq> LPAREN \<and> c \<noteq> RPAREN"
  by (auto simp: word_hyphen_def word_char_def upper_def lower_def digit_def)

lemma lower_not_digit: "lower c \<Longrightarrow> \<not> digit c"
proof
  assume "lower c" and "digit c"
  then have "(0x61 :: code_unit) \<le> c" and "c \<le> 0x39"
    by (simp_all add: lower_def digit_def)
  then have "(0x61 :: code_unit) \<le> 0x39"
    by (rule order_trans)
  then show False
    by simp
qed

lemma backtrack_Some: "backtrack cont k cs = Some j \<Longrightarrow> 0 < j \<and> j \<le> k \<and> cont (drop j cs)"
  by (induction k) (auto split: if_splits)

lemma backtrack_top: "0 < k \<Longrightarrow> cont (drop k cs) \<Longrightarrow> backtrack cont k cs = Some k"
  by (cases k) auto

lemma xref_tail_iff: "xref_tail r \<longleftrightarrow> (\<exists>d rest. r = LPAREN # d # RPAREN # rest \<and> digit d)"
  by (auto simp: xref_tail_def split: list.splits)

lemma takeWhile_holds: "j < length (takeWhile P xs) \<Longrightarrow> P (xs ! j)"
  using nth_mem [of j "takeWhile P xs"] set_takeWhileD [of "takeWhile P xs ! j" P xs]
  by (simp add: takeWhile_nth)

lemma plus_then_xref:
  "plus_then word_hyphen xref_tail cs = Some j \<longleftrightarrow>
     j = length (takeWhile word_hyphen cs) \<and> 0 < j \<and> xref_tail (drop j cs)"
proof
  let ?k = "length (takeWhile word_hyphen cs)"
  assume "plus_then word_hyphen xref_tail cs = Some j"
  then have j: "0 < j" "j \<le> ?k" "xref_tail (drop j cs)"
    using backtrack_Some [of xref_tail ?k cs j] by (simp_all add: plus_then_def)
  have "\<not> j < ?k"
  proof
    assume lt: "j < ?k"
    then have wh: "word_hyphen (cs ! j)"
      by (rule takeWhile_holds)
    from lt have "j < length cs"
      using length_takeWhile_le [of word_hyphen cs] by simp
    then have "drop j cs = cs ! j # drop (Suc j) cs"
      by (simp add: Cons_nth_drop_Suc)
    with j(3) have "cs ! j = LPAREN"
      by (auto simp: xref_tail_iff)
    with wh show False
      using word_hyphen_not_paren by blast
  qed
  with j show "j = ?k \<and> 0 < j \<and> xref_tail (drop j cs)"
    by simp
next
  assume "j = length (takeWhile word_hyphen cs) \<and> 0 < j \<and> xref_tail (drop j cs)"
  then show "plus_then word_hyphen xref_tail cs = Some j"
    unfolding plus_then_def using backtrack_top [of j xref_tail cs] by blast
qed

lemma xref_at_iff: "xref_at s = Some n \<longleftrightarrow> n \<le> length s \<and> is_xref (take n s)"
proof
  assume a: "xref_at s = Some n"
  then obtain x cs where s: "s = x # cs"
    by (cases s) (auto simp: xref_at_def)
  let ?body = "takeWhile word_hyphen cs"
  from a s have x: "lower x" and "\<exists>k. plus_then word_hyphen xref_tail cs = Some k \<and> n = k + 4"
    by (auto simp: xref_at_def split: if_splits)
  then obtain k where k: "plus_then word_hyphen xref_tail cs = Some k" and n: "n = k + 4"
    by blast
  from k have "k = length ?body \<and> 0 < k \<and> xref_tail (drop k cs)"
    using plus_then_xref [of cs k] by blast
  then have kl: "k = length ?body" and k0: "0 < k" and t: "xref_tail (drop k cs)"
    by blast+
  from t obtain d rest where d: "drop k cs = LPAREN # d # RPAREN # rest" and dd: "digit d"
    by (auto simp: xref_tail_iff)
  have "cs = ?body @ dropWhile word_hyphen cs"
    by simp
  also have "dropWhile word_hyphen cs = drop k cs"
    by (simp add: kl dropWhile_eq_drop)
  finally have cs: "cs = ?body @ LPAREN # d # RPAREN # rest"
    by (simp add: d)
  have all: "list_all word_hyphen ?body"
    using set_takeWhileD [of _ word_hyphen cs] by (auto simp: list_all_iff)
  have "s = (x # ?body @ [LPAREN, d, RPAREN]) @ rest"
    using cs s by simp
  moreover have "n = length (x # ?body @ [LPAREN, d, RPAREN])"
    by (simp add: n kl)
  ultimately have "n \<le> length s" and "take n s = x # ?body @ [LPAREN, d, RPAREN]"
    by (metis length_append le_add1, metis append_eq_conv_conj)
  with x dd all k0 kl show "n \<le> length s \<and> is_xref (take n s)"
    unfolding is_xref_def by auto
next
  assume a: "n \<le> length s \<and> is_xref (take n s)"
  then obtain x body d where w: "take n s = x # body @ [LPAREN, d, RPAREN]"
    and x: "lower x" and b: "body \<noteq> []" and all: "list_all word_hyphen body" and d: "digit d"
    unfolding is_xref_def by blast
  from a w have n: "n = length body + 4"
    using length_take [of n s] by (simp add: min_absorb2)
  have "s = take n s @ drop n s"
    by simp
  with w have s: "s = x # (body @ LPAREN # d # RPAREN # drop n s)"
    by simp
  from all have "\<forall>c\<in>set body. word_hyphen c"
    by (simp add: list_all_iff)
  moreover have "\<not> word_hyphen LPAREN"
    using word_hyphen_not_paren by blast
  ultimately have tw: "takeWhile word_hyphen (body @ LPAREN # d # RPAREN # drop n s) = body"
    by (rule takeWhile_stop)
  have "plus_then word_hyphen xref_tail (body @ LPAREN # d # RPAREN # drop n s) = Some (length body)"
    unfolding plus_then_xref tw using b d by (simp add: xref_tail_iff)
  with x n show "xref_at s = Some n"
    by (subst s) (simp add: xref_at_def)
qed

subsection \<open>Occurrences of the pattern in a line\<close>

lemma occurs_at: "i \<le> length l \<Longrightarrow> xref_at (drop i l) = Some n \<longleftrightarrow> occurs l i n"
  unfolding xref_at_iff occurs_def by auto

lemma occurs_nth:
  assumes "occurs l c n"
  shows "5 \<le> n" and "c + n \<le> length l" and "lower (l ! c)"
    and "\<And>j. c \<le> j \<Longrightarrow> j + 4 \<le> c + n \<Longrightarrow> word_hyphen (l ! j)"
    and "l ! (c + n - 3) = LPAREN" and "digit (l ! (c + n - 2))"
    and "l ! (c + n - 1) = RPAREN"
proof -
  from assms obtain x body d where w: "take n (drop c l) = x # body @ [LPAREN, d, RPAREN]"
    and x: "lower x" and b: "body \<noteq> []" and all: "list_all word_hyphen body" and d: "digit d"
    and len: "c + n \<le> length l"
    unfolding occurs_def is_xref_def by blast
  from w len have n: "n = length body + 4"
    using length_take [of n "drop c l"] by (simp add: min_absorb2)
  have nth: "l ! (c + j) = (x # body @ [LPAREN, d, RPAREN]) ! j" if "j < n" for j
  proof -
    from that have "take n (drop c l) ! j = l ! (c + j)"
      using len by simp
    with w show ?thesis by simp
  qed
  from b n show "5 \<le> n"
    by (cases body) auto
  from len show "c + n \<le> length l" .
  from nth [of 0] n x show "lower (l ! c)"
    by simp
  show "word_hyphen (l ! j)" if "c \<le> j" and "j + 4 \<le> c + n" for j
  proof (cases "j = c")
    case True
    with \<open>lower (l ! c)\<close> show ?thesis
      by (simp add: lower_word_hyphen)
  next
    case False
    define k where "k = j - c - 1"
    from False that n have k: "j = c + Suc k" and kb: "k < length body"
      unfolding k_def by arith+
    from kb n have "Suc k < n"
      by simp
    from nth [OF this] kb have "l ! j = body ! k"
      by (simp add: k nth_append)
    with all kb show ?thesis
      by (simp add: list_all_length)
  qed
  have "length body + 1 < n" "length body + 2 < n" "length body + 3 < n"
    using n by simp_all
  from this [THEN nth]
  have "l ! (c + (length body + 1)) = LPAREN" and "l ! (c + (length body + 2)) = d"
    and "l ! (c + (length body + 3)) = RPAREN"
    by (simp_all add: nth_append)
  moreover have "c + n - 3 = c + (length body + 1)" "c + n - 2 = c + (length body + 2)"
    "c + n - 1 = c + (length body + 3)"
    using n by simp_all
  ultimately show "l ! (c + n - 3) = LPAREN" and "digit (l ! (c + n - 2))"
    and "l ! (c + n - 1) = RPAREN"
    using d by simp_all
qed
lemma occurs_unique: "occurs l c n \<Longrightarrow> occurs l c m \<Longrightarrow> n = m"
proof -
  assume n: "occurs l c n" and m: "occurs l c m"
  from n have "c \<le> length l"
    by (simp add: occurs_def)
  with n m have "xref_at (drop c l) = Some n" and "xref_at (drop c l) = Some m"
    by (simp_all add: occurs_at)
  then show "n = m"
    by simp
qed

lemma occurs_overlap:
  assumes o': "occurs l c' n'" and o: "occurs l c n" and lt: "c' < c" and ov: "c < c' + n'"
  shows "c' + n' = c + n"
proof -
  note p' = occurs_nth [OF o'] and p = occurs_nth [OF o]
  have wc: "word_hyphen (l ! c)"
    using p(3) by (rule lower_word_hyphen)
  have "c \<noteq> c' + n' - 3"
    using wc p'(5) word_hyphen_not_paren by metis
  moreover have "c \<noteq> c' + n' - 2"
    using p(3) p'(6) lower_not_digit by metis
  moreover have "c \<noteq> c' + n' - 1"
    using wc p'(7) word_hyphen_not_paren by metis
  ultimately have far: "c + 3 < c' + n'"
    using ov by arith
  have "\<not> c + n < c' + n'"
  proof
    assume "c + n < c' + n'"
    with lt p(1) have "c' \<le> c + n - 3" and "c + n - 3 + 4 \<le> c' + n'"
      by arith+
    then have "word_hyphen (l ! (c + n - 3))"
      by (rule p'(4))
    with p(5) show False
      using word_hyphen_not_paren by metis
  qed
  moreover have "\<not> c' + n' < c + n"
  proof
    assume "c' + n' < c + n"
    with far have "c \<le> c' + n' - 3" and "c' + n' - 3 + 4 \<le> c + n"
      by arith+
    then have "word_hyphen (l ! (c' + n' - 3))"
      by (rule p(4))
    with p'(5) show False
      using word_hyphen_not_paren by metis
  qed
  ultimately show ?thesis
    by arith
qed

subsection \<open>The scan of a line\<close>

lemma matchAll_from_iff:
  "(c, n) \<in> set (matchAll_from l i) \<longleftrightarrow>
     i \<le> c \<and> occurs l c n
     \<and> \<not> (\<exists>c' n'. i \<le> c' \<and> c' < c \<and> c < c' + n' \<and> occurs l c' n')"
proof (induction l i rule: matchAll_from.induct)
  case (1 s i)
  show ?case
  proof (cases "length s < i")
    case True
    then have "matchAll_from s i = []"
      by (subst matchAll_from.simps) simp
    moreover from True have "\<not> (i \<le> c \<and> occurs s c n)"
      by (auto simp: occurs_def)
    ultimately show ?thesis
      by auto
  next
    case False
    then have il: "i \<le> length s"
      by simp
    show ?thesis
    proof (cases "xref_at (drop i s)")
      case None
      then have no: "\<not> occurs s i m" for m
        using occurs_at [OF il, of m] by simp
      from None False have "matchAll_from s i = matchAll_from s (Suc i)"
        by (subst matchAll_from.simps) simp
      then have "(c, n) \<in> set (matchAll_from s i) \<longleftrightarrow>
          Suc i \<le> c \<and> occurs s c n
          \<and> \<not> (\<exists>c' n'. Suc i \<le> c' \<and> c' < c \<and> c < c' + n' \<and> occurs s c' n')"
        using "1.IH"(1) [OF False None] by simp
      also have "\<dots> \<longleftrightarrow> i \<le> c \<and> occurs s c n
          \<and> \<not> (\<exists>c' n'. i \<le> c' \<and> c' < c \<and> c < c' + n' \<and> occurs s c' n')"
        using no by (metis Suc_leI Suc_le_lessD le_neq_implies_less less_imp_le_nat)
      finally show ?thesis .
    next
      case (Some m)
      then have om: "occurs s i m"
        using occurs_at [OF il, of m] by simp
      then have m5: "5 \<le> m"
        by (rule occurs_nth(1))
      from Some False m5 have eq: "matchAll_from s i = (i, m) # matchAll_from s (i + m)"
        by (subst matchAll_from.simps) simp
      from m5 have "(if m = 0 then Suc i else i + m) = i + m"
        by simp
      with "1.IH"(2) [OF False Some]
      have ih: "(c, n) \<in> set (matchAll_from s (i + m)) \<longleftrightarrow>
          i + m \<le> c \<and> occurs s c n
          \<and> \<not> (\<exists>c' n'. i + m \<le> c' \<and> c' < c \<and> c < c' + n' \<and> occurs s c' n')"
        by simp
      show ?thesis
      proof
        assume "(c, n) \<in> set (matchAll_from s i)"
        then consider "c = i" "n = m" | "(c, n) \<in> set (matchAll_from s (i + m))"
          unfolding eq by auto
        then show "i \<le> c \<and> occurs s c n
          \<and> \<not> (\<exists>c' n'. i \<le> c' \<and> c' < c \<and> c < c' + n' \<and> occurs s c' n')"
        proof cases
          case 1
          with om show ?thesis by simp
        next
          case 2
          with ih have c: "i + m \<le> c" and oc: "occurs s c n"
            and none: "\<not> (\<exists>c' n'. i + m \<le> c' \<and> c' < c \<and> c < c' + n' \<and> occurs s c' n')"
            by blast+
          have "\<not> (i \<le> c' \<and> c' < c \<and> c < c' + n' \<and> occurs s c' n')" for c' n'
          proof
            assume a: "i \<le> c' \<and> c' < c \<and> c < c' + n' \<and> occurs s c' n'"
            show False
            proof (cases "c' = i")
              case True
              with a om have "n' = m"
                using occurs_unique by blast
              with True a c show False by simp
            next
              case False
              show False
              proof (cases "c' < i + m")
                case True
                with False a have "i + m = c' + n'"
                  using occurs_overlap [OF om, of c' n'] by simp
                with a c show False by simp
              next
                case False
                with a none show False
                  by (metis not_less)
              qed
            qed
          qed
          with c oc show ?thesis
            by auto
        qed
      next
        assume a: "i \<le> c \<and> occurs s c n
          \<and> \<not> (\<exists>c' n'. i \<le> c' \<and> c' < c \<and> c < c' + n' \<and> occurs s c' n')"
        show "(c, n) \<in> set (matchAll_from s i)"
        proof (cases "c = i")
          case True
          with a om have "n = m"
            using occurs_unique by blast
          with True show ?thesis
            by (simp add: eq)
        next
          case False
          with a om have "\<not> c < i + m"
            by (metis le_neq_implies_less le_refl)
          with a have "(c, n) \<in> set (matchAll_from s (i + m))"
            unfolding ih by (metis le_add1 le_trans not_less)
          then show ?thesis
            by (simp add: eq)
        qed
      qed
    qed
  qed
qed
lemma matchAll_iff: "(c, n) \<in> set (matchAll_from l 0) \<longleftrightarrow> lexical_match l c n"
  unfolding matchAll_from_iff lexical_match_def by simp

lemma matchAll_from_sorted:
  "sorted_wrt (\<lambda>a b. fst a + snd a \<le> fst b) (matchAll_from l i)"
proof (induction l i rule: matchAll_from.induct)
  case (1 s i)
  show ?case
  proof (cases "length s < i")
    case True
    then show ?thesis
      by (subst matchAll_from.simps) simp
  next
    case False
    show ?thesis
    proof (cases "xref_at (drop i s)")
      case None
      with False "1.IH"(1) show ?thesis
        by (subst matchAll_from.simps) simp
    next
      case (Some m)
      with False have "occurs s i m"
        using occurs_at [of i s m] by simp
      then have m5: "5 \<le> m"
        by (rule occurs_nth(1))
      with Some False have eq: "matchAll_from s i = (i, m) # matchAll_from s (i + m)"
        by (subst matchAll_from.simps) simp
      from m5 "1.IH"(2) [OF False Some]
      have "sorted_wrt (\<lambda>a b. fst a + snd a \<le> fst b) (matchAll_from s (i + m))"
        by simp
      moreover have "\<forall>b\<in>set (matchAll_from s (i + m)). i + m \<le> fst b"
        using matchAll_from_iff [of _ _ s "i + m"] by auto
      ultimately show ?thesis
        by (simp add: eq)
    qed
  qed
qed

subsection \<open>The links of a document\<close>

lemma links_from_set:
  "k \<in> set (links_from i ls) \<longleftrightarrow>
     (\<exists>j m. j < length ls \<and> m \<in> set (matchAll_from (ls ! j) 0)
        \<and> k = link_of (i + j) (ls ! j) m)"
proof (induction ls arbitrary: i)
  case Nil
  then show ?case by simp
next
  case (Cons l ls)
  show ?case
  proof
    assume "k \<in> set (links_from i (l # ls))"
    then consider m where "m \<in> set (matchAll_from l 0)" "k = link_of i l m"
      | "k \<in> set (links_from (Suc i) ls)"
      by auto
    then show "\<exists>j m. j < length (l # ls) \<and> m \<in> set (matchAll_from ((l # ls) ! j) 0)
        \<and> k = link_of (i + j) ((l # ls) ! j) m"
    proof cases
      case 1
      then have "0 < length (l # ls) \<and> m \<in> set (matchAll_from ((l # ls) ! 0) 0)
          \<and> k = link_of (i + 0) ((l # ls) ! 0) m"
        by simp
      then show ?thesis by blast
    next
      case 2
      then obtain j m where "j < length ls" "m \<in> set (matchAll_from (ls ! j) 0)"
        "k = link_of (Suc i + j) (ls ! j) m"
        unfolding Cons.IH by blast
      then have "Suc j < length (l # ls) \<and> m \<in> set (matchAll_from ((l # ls) ! Suc j) 0)
          \<and> k = link_of (i + Suc j) ((l # ls) ! Suc j) m"
        by simp
      then show ?thesis by blast
    qed
  next
    assume "\<exists>j m. j < length (l # ls) \<and> m \<in> set (matchAll_from ((l # ls) ! j) 0)
        \<and> k = link_of (i + j) ((l # ls) ! j) m"
    then obtain j m where j: "j < length (l # ls)"
      and m: "m \<in> set (matchAll_from ((l # ls) ! j) 0)"
      and k: "k = link_of (i + j) ((l # ls) ! j) m"
      by blast
    show "k \<in> set (links_from i (l # ls))"
    proof (cases j)
      case 0
      with m k show ?thesis by simp
    next
      case (Suc j')
      with j m k have "j' < length ls \<and> m \<in> set (matchAll_from (ls ! j') 0)
          \<and> k = link_of (Suc i + j') (ls ! j') m"
        by simp
      then have "k \<in> set (links_from (Suc i) ls)"
        unfolding Cons.IH by blast
      then show ?thesis by simp
    qed
  qed
qed

lemma links_from_sorted:
  "sorted_wrt (\<lambda>a b. line (start a) < line (start b)
        \<or> (line (start a) = line (start b) \<and> character (stop a) \<le> character (start b)))
     (links_from i ls)"
proof (induction ls arbitrary: i)
  case Nil
  then show ?case by simp
next
  case (Cons l ls)
  let ?R = "\<lambda>a b. line (start a) < line (start b)
        \<or> (line (start a) = line (start b) \<and> character (stop a) \<le> character (start b))"
  have "sorted_wrt (\<lambda>a b. ?R (link_of i l a) (link_of i l b)) (matchAll_from l 0)"
    using matchAll_from_sorted [of l 0]
    by (rule sorted_wrt_mono_rel [rotated]) (simp add: link_of_def translate_def Let_def)
  then have here: "sorted_wrt ?R (map (link_of i l) (matchAll_from l 0))"
    by (simp add: sorted_wrt_map)
  have "\<forall>x\<in>set (map (link_of i l) (matchAll_from l 0)). \<forall>y\<in>set (links_from (Suc i) ls). ?R x y"
    by (auto simp: links_from_set link_of_def Let_def)
  with here Cons.IH [of "Suc i"] show ?case
    by (simp add: sorted_wrt_append)
qed

lemma distinct_of_sorted_wrt:
  "sorted_wrt R xs \<Longrightarrow> (\<And>a b. R a b \<Longrightarrow> f a \<noteq> f b) \<Longrightarrow> distinct (map f xs)"
  by (induction xs) auto

lemma split_on_pieces: "p \<in> set (split_on sep s) \<Longrightarrow> sep \<notin> set p"
proof (induction sep s rule: split_on.induct)
  case (1 sep s)
  show ?case
  proof (cases "sep \<in> set s")
    case False
    with "1.prems" show ?thesis
      by (simp add: split_on_absent)
  next
    case True
    then obtain c rest where d: "dropWhile (\<lambda>c. c \<noteq> sep) s = c # rest"
      using dropWhile_present [of sep s] by (cases "dropWhile (\<lambda>c. c \<noteq> sep) s") auto
    from True "1.prems" d
    consider "p = takeWhile (\<lambda>c. c \<noteq> sep) s" | "p \<in> set (split_on sep rest)"
      by (auto simp: split_on_present)
    then show ?thesis
    proof cases
      case 1
      then show ?thesis
        using set_takeWhileD [of sep "\<lambda>c. c \<noteq> sep" s] by blast
    next
      case 2
      with "1.IH" [OF d] show ?thesis by blast
    qed
  qed
qed

lemma join_lines_Cons: "ls \<noteq> [] \<Longrightarrow> join_lines (l # ls) = l @ NEWLINE # join_lines ls"
  by (cases ls) simp_all

lemma join_lines_split_on: "join_lines (split_on NEWLINE doc) = doc"
proof (induction "NEWLINE :: code_unit" doc rule: split_on.induct)
  case (1 s)
  show ?case
  proof (cases "NEWLINE \<in> set s")
    case False
    then show ?thesis
      by (simp add: split_on_absent)
  next
    case True
    let ?d = "dropWhile (\<lambda>c. c \<noteq> NEWLINE) s"
    from True have "?d \<noteq> []"
      by (rule dropWhile_present)
    moreover have "?d \<noteq> [] \<Longrightarrow> hd ?d = NEWLINE"
      using hd_dropWhile [of "\<lambda>c. c \<noteq> NEWLINE" s] by simp
    ultimately have d: "?d = NEWLINE # tl ?d"
      by (cases ?d) auto
    from "1.hyps" [OF d] have "join_lines (split_on NEWLINE (tl ?d)) = tl ?d" .
    then have "join_lines (split_on NEWLINE s) = takeWhile (\<lambda>c. c \<noteq> NEWLINE) s @ NEWLINE # tl ?d"
      by (simp add: split_on_present [OF True] join_lines_Cons split_on_not_Nil)
    also have "\<dots> = takeWhile (\<lambda>c. c \<noteq> NEWLINE) s @ ?d"
      using d by simp
    finally show ?thesis
      by simp
  qed
qed

lemma links_shape:
  "k \<in> set (provideDocumentLinks doc) \<longleftrightarrow>
     (\<exists>i c n. i < length (split_on NEWLINE doc)
        \<and> lexical_match (split_on NEWLINE doc ! i) c n
        \<and> k = link_of i (split_on NEWLINE doc ! i) (c, n))"
  unfolding provideDocumentLinks_def links_from_set
  by (auto simp: matchAll_iff)

lemma link_of_simps:
  "start (link_of i l (c, n)) = \<lparr>line = i, character = c\<rparr>"
  "stop (link_of i l (c, n)) = \<lparr>line = i, character = c + n\<rparr>"
  "target (link_of i l (c, n)) = js ''man:'' @ take n (drop c l)"
  by (simp_all add: link_of_def translate_def Let_def)

lemma links_positive:
  "k \<in> set (provideDocumentLinks doc) \<Longrightarrow> character (start k) < character (stop k)"
proof -
  assume "k \<in> set (provideDocumentLinks doc)"
  then obtain i c n where "lexical_match (split_on NEWLINE doc ! i) c n"
    and k: "k = link_of i (split_on NEWLINE doc ! i) (c, n)"
    unfolding links_shape by blast
  then have "5 \<le> n"
    using occurs_nth(1) by (auto simp: lexical_match_def)
  with k show ?thesis
    by (simp add: link_of_simps)
qed

text \<open>
  Claim C7. The lines of a document are the pieces between its line feeds: none has a
  line feed in it, and joined by line feeds they are the document. The links of a
  document are the matches of the pattern in its lines, one link for each match: there is a link from column \<open>c\<close> to column \<open>c + n\<close> of line
  \<open>i\<close> if and only if the \<open>n\<close> characters from column \<open>c\<close> of line \<open>i\<close> are a
  match, and no two links have the same range. A match is an occurrence of the pattern
  (one lower-case letter, one or more word characters or hyphens, \<open>(\<close>, one digit,
  \<open>)\<close>) that no occurrence starting further left reaches into, as the scan takes up
  again after the end of a match: in \<^verbatim>\<open>git-annotate(1)\<close> the occurrence
  \<^verbatim>\<open>it-annotate(1)\<close> is no match of its own. The links come in the order of the
  lines and, within a line, from left to right, each ending before the next starts. The
  line \<^verbatim>\<open>See git-annotate(1) and ls(1) for details\<close> has two links, at column 4 with
  length 15 and at column 24 with length 5; \<^verbatim>\<open>foo(12)\<close> and \<^verbatim>\<open>(1)\<close> without a
  name before it have none. A document of four lines shows the line numbers: its links
  are on the lines 0, 1 and 3, each at its column within its own line.
\<close>

theorem document_links_matches:
  "((\<exists>k\<in>set (provideDocumentLinks doc).
        start k = \<lparr>line = i, character = c\<rparr> \<and> stop k = \<lparr>line = i, character = c + n\<rparr>)
      \<longleftrightarrow> i < length (split_on NEWLINE doc) \<and> lexical_match (split_on NEWLINE doc ! i) c n)
   \<and> sorted_wrt (\<lambda>a b. line (start a) < line (start b)
          \<or> (line (start a) = line (start b) \<and> character (stop a) \<le> character (start b)))
        (provideDocumentLinks doc)
   \<and> distinct (map (\<lambda>k. (start k, stop k)) (provideDocumentLinks doc))
   \<and> split_on NEWLINE doc \<noteq> []
   \<and> join_lines (split_on NEWLINE doc) = doc
   \<and> (\<forall>l\<in>set (split_on NEWLINE doc). NEWLINE \<notin> set l)
   \<and> provideDocumentLinks (js ''ab(1)\<newline>see cd(2) and\<newline>\<newline>x ef-g(3), cd(2)'') =
       [\<lparr>start = \<lparr>line = 0, character = 0\<rparr>, stop = \<lparr>line = 0, character = 5\<rparr>,
         target = js ''man:ab(1)''\<rparr>,
        \<lparr>start = \<lparr>line = 1, character = 4\<rparr>, stop = \<lparr>line = 1, character = 9\<rparr>,
         target = js ''man:cd(2)''\<rparr>,
        \<lparr>start = \<lparr>line = 3, character = 2\<rparr>, stop = \<lparr>line = 3, character = 9\<rparr>,
         target = js ''man:ef-g(3)''\<rparr>,
        \<lparr>start = \<lparr>line = 3, character = 11\<rparr>, stop = \<lparr>line = 3, character = 16\<rparr>,
         target = js ''man:cd(2)''\<rparr>]
   \<and> provideDocumentLinks (js ''See git-annotate(1) and ls(1) for details'') =
       [\<lparr>start = \<lparr>line = 0, character = 4\<rparr>, stop = \<lparr>line = 0, character = 19\<rparr>,
         target = js ''man:git-annotate(1)''\<rparr>,
        \<lparr>start = \<lparr>line = 0, character = 24\<rparr>, stop = \<lparr>line = 0, character = 29\<rparr>,
         target = js ''man:ls(1)''\<rparr>]
   \<and> provideDocumentLinks (js ''foo(12)'') = []
   \<and> provideDocumentLinks (js ''(1)'') = []
   \<and> provideDocumentLinks (js ''see section (1) of'') = []"
proof (intro conjI)
  let ?ls = "split_on NEWLINE doc"
  let ?R = "\<lambda>a b. line (start a) < line (start b)
          \<or> (line (start a) = line (start b) \<and> character (stop a) \<le> character (start b))"
  show "(\<exists>k\<in>set (provideDocumentLinks doc).
        start k = \<lparr>line = i, character = c\<rparr> \<and> stop k = \<lparr>line = i, character = c + n\<rparr>)
      \<longleftrightarrow> i < length ?ls \<and> lexical_match (?ls ! i) c n"
  proof
    assume "\<exists>k\<in>set (provideDocumentLinks doc).
        start k = \<lparr>line = i, character = c\<rparr> \<and> stop k = \<lparr>line = i, character = c + n\<rparr>"
    then obtain k where "k \<in> set (provideDocumentLinks doc)"
      and s: "start k = \<lparr>line = i, character = c\<rparr>"
      and e: "stop k = \<lparr>line = i, character = c + n\<rparr>"
      by blast
    then obtain i' c' n' where "i' < length ?ls" "lexical_match (?ls ! i') c' n'"
      and "k = link_of i' (?ls ! i') (c', n')"
      unfolding links_shape by blast
    with s e show "i < length ?ls \<and> lexical_match (?ls ! i) c n"
      by (simp add: link_of_simps)
  next
    assume "i < length ?ls \<and> lexical_match (?ls ! i) c n"
    then have "link_of i (?ls ! i) (c, n) \<in> set (provideDocumentLinks doc)"
      unfolding links_shape by blast
    then show "\<exists>k\<in>set (provideDocumentLinks doc).
        start k = \<lparr>line = i, character = c\<rparr> \<and> stop k = \<lparr>line = i, character = c + n\<rparr>"
      by (rule bexI [rotated]) (simp add: link_of_simps)
  qed
  show sorted: "sorted_wrt ?R (provideDocumentLinks doc)"
    unfolding provideDocumentLinks_def by (rule links_from_sorted)
  have "sorted_wrt (\<lambda>a b. ?R a b \<and> character (start a) < character (stop a))
      (provideDocumentLinks doc)"
    using sorted by (rule sorted_wrt_mono_rel [rotated]) (simp add: links_positive)
  then show "distinct (map (\<lambda>k. (start k, stop k)) (provideDocumentLinks doc))"
    by (rule distinct_of_sorted_wrt) auto
  show "split_on NEWLINE doc \<noteq> []"
    by (rule split_on_not_Nil)
  show "join_lines (split_on NEWLINE doc) = doc"
    by (rule join_lines_split_on)
  show "\<forall>l\<in>set (split_on NEWLINE doc). NEWLINE \<notin> set l"
    using split_on_pieces by blast
  show "provideDocumentLinks (js ''ab(1)\<newline>see cd(2) and\<newline>\<newline>x ef-g(3), cd(2)'') =
       [\<lparr>start = \<lparr>line = 0, character = 0\<rparr>, stop = \<lparr>line = 0, character = 5\<rparr>,
         target = js ''man:ab(1)''\<rparr>,
        \<lparr>start = \<lparr>line = 1, character = 4\<rparr>, stop = \<lparr>line = 1, character = 9\<rparr>,
         target = js ''man:cd(2)''\<rparr>,
        \<lparr>start = \<lparr>line = 3, character = 2\<rparr>, stop = \<lparr>line = 3, character = 9\<rparr>,
         target = js ''man:ef-g(3)''\<rparr>,
        \<lparr>start = \<lparr>line = 3, character = 11\<rparr>, stop = \<lparr>line = 3, character = 16\<rparr>,
         target = js ''man:cd(2)''\<rparr>]"
    by code_simp
  show "provideDocumentLinks (js ''See git-annotate(1) and ls(1) for details'') =
       [\<lparr>start = \<lparr>line = 0, character = 4\<rparr>, stop = \<lparr>line = 0, character = 19\<rparr>,
         target = js ''man:git-annotate(1)''\<rparr>,
        \<lparr>start = \<lparr>line = 0, character = 24\<rparr>, stop = \<lparr>line = 0, character = 29\<rparr>,
         target = js ''man:ls(1)''\<rparr>]"
    by code_simp
  show "provideDocumentLinks (js ''foo(12)'') = []"
    by code_simp
  show "provideDocumentLinks (js ''(1)'') = []"
    by code_simp
  show "provideDocumentLinks (js ''see section (1) of'') = []"
    by code_simp
qed

theorem document_links_matches_witness:
  "lexical_match (js ''see cd(2) and'') 4 5
   \<and> \<not> lexical_match (js ''ab(1)'') 6 5
   \<and> \<not> lexical_match (js ''x ef-g(3), cd(2)'') 3 6
   \<and> join_lines [js ''ab(1)'', js ''see cd(2) and'', [], js ''x ef-g(3), cd(2)''] =
       js ''ab(1)\<newline>see cd(2) and\<newline>\<newline>x ef-g(3), cd(2)''"
proof -
  let ?doc = "js ''ab(1)\<newline>see cd(2) and\<newline>\<newline>x ef-g(3), cd(2)''"
  have l: "split_on NEWLINE ?doc = [js ''ab(1)'', js ''see cd(2) and'', [], js ''x ef-g(3), cd(2)'']"
    by (simp add: split_on.simps js_def)
  have r: "provideDocumentLinks ?doc =
       [\<lparr>start = \<lparr>line = 0, character = 0\<rparr>, stop = \<lparr>line = 0, character = 5\<rparr>,
         target = js ''man:ab(1)''\<rparr>,
        \<lparr>start = \<lparr>line = 1, character = 4\<rparr>, stop = \<lparr>line = 1, character = 9\<rparr>,
         target = js ''man:cd(2)''\<rparr>,
        \<lparr>start = \<lparr>line = 3, character = 2\<rparr>, stop = \<lparr>line = 3, character = 9\<rparr>,
         target = js ''man:ef-g(3)''\<rparr>,
        \<lparr>start = \<lparr>line = 3, character = 11\<rparr>, stop = \<lparr>line = 3, character = 16\<rparr>,
         target = js ''man:cd(2)''\<rparr>]"
    by code_simp
  have "lexical_match (js ''see cd(2) and'') 4 5"
    using document_links_matches [of ?doc 1 4 5] by (simp add: l r)
  moreover have "\<not> lexical_match (js ''ab(1)'') 6 5"
    using document_links_matches [of ?doc 0 6 5] by (simp add: l r)
  moreover have "\<not> lexical_match (js ''x ef-g(3), cd(2)'') 3 6"
    using document_links_matches [of ?doc 3 3 6] by (simp add: l r)
  moreover have "join_lines [js ''ab(1)'', js ''see cd(2) and'', [], js ''x ef-g(3), cd(2)''] = ?doc"
    using document_links_matches [of ?doc 0 0 0] by (simp only: l)
  ultimately show ?thesis
    by (intro conjI)
qed

text \<open>
  Claim C9. Every link lies within one line of the document: its range starts and ends
  on the same line, is not empty, ends at or before the end of that line, and the
  characters it covers, which are its target after \<^verbatim>\<open>man:\<close>, are characters of that
  line, no line feed among them. A reference that is wrapped onto the next line gives
  at most a link for what stands on one line.
\<close>

theorem document_links_within_line:
  "(k \<in> set (provideDocumentLinks doc) \<longrightarrow>
      line (start k) < length (split_on NEWLINE doc)
      \<and> line (stop k) = line (start k)
      \<and> character (start k) < character (stop k)
      \<and> character (stop k) \<le> length (split_on NEWLINE doc ! line (start k))
      \<and> NEWLINE \<notin> set (split_on NEWLINE doc ! line (start k))
      \<and> target k = js ''man:'' @ take (character (stop k) - character (start k))
            (drop (character (start k)) (split_on NEWLINE doc ! line (start k))))
   \<and> provideDocumentLinks (js ''see git-\<newline>annotate(1), ls\<newline>(1)'') =
       [\<lparr>start = \<lparr>line = 1, character = 0\<rparr>, stop = \<lparr>line = 1, character = 11\<rparr>,
         target = js ''man:annotate(1)''\<rparr>]"
proof (intro conjI impI)
  let ?ls = "split_on NEWLINE doc"
  assume "k \<in> set (provideDocumentLinks doc)"
  then obtain i c n where i: "i < length ?ls" and m: "lexical_match (?ls ! i) c n"
    and k: "k = link_of i (?ls ! i) (c, n)"
    unfolding links_shape by blast
  from m have o: "occurs (?ls ! i) c n"
    by (simp add: lexical_match_def)
  note p = occurs_nth(1,2) [OF o]
  from i have nl: "NEWLINE \<notin> set (?ls ! i)"
    using split_on_pieces [of "?ls ! i" NEWLINE doc] by simp
  from i k show "line (start k) < length ?ls"
    by (simp add: link_of_simps)
  from k show "line (stop k) = line (start k)"
    by (simp add: link_of_simps)
  from k p show "character (start k) < character (stop k)"
    by (simp add: link_of_simps)
  from k p show "character (stop k) \<le> length (?ls ! line (start k))"
    by (simp add: link_of_simps)
  from k nl show "NEWLINE \<notin> set (?ls ! line (start k))"
    by (simp add: link_of_simps)
  from k show "target k = js ''man:'' @ take (character (stop k) - character (start k))
            (drop (character (start k)) (?ls ! line (start k)))"
    by (simp add: link_of_simps)
next
  show "provideDocumentLinks (js ''see git-\<newline>annotate(1), ls\<newline>(1)'') =
       [\<lparr>start = \<lparr>line = 1, character = 0\<rparr>, stop = \<lparr>line = 1, character = 11\<rparr>,
         target = js ''man:annotate(1)''\<rparr>]"
    by code_simp
qed

theorem document_links_within_line_witness:
  "line (stop \<lparr>start = \<lparr>line = 1, character = 0\<rparr>, stop = \<lparr>line = 1, character = 11\<rparr>,
         target = js ''man:annotate(1)''\<rparr>) = 1
   \<and> (11::nat) \<le> length (js ''annotate(1), ls'')
   \<and> NEWLINE \<notin> set (js ''annotate(1), ls'')"
proof -
  let ?doc = "js ''see git-\<newline>annotate(1), ls\<newline>(1)''"
  let ?k = "\<lparr>start = \<lparr>line = 1, character = 0\<rparr>, stop = \<lparr>line = 1, character = 11\<rparr>,
         target = js ''man:annotate(1)''\<rparr>"
  have l: "split_on NEWLINE ?doc = [js ''see git-'', js ''annotate(1), ls'', js ''(1)'']"
    by (simp add: split_on.simps js_def)
  have "provideDocumentLinks ?doc = [?k]"
    by code_simp
  then have "?k \<in> set (provideDocumentLinks ?doc)"
    by simp
  with document_links_within_line [of ?k ?doc]
  have "line (stop ?k) = line (start ?k)
      \<and> character (stop ?k) \<le> length (split_on NEWLINE ?doc ! line (start ?k))
      \<and> NEWLINE \<notin> set (split_on NEWLINE ?doc ! line (start ?k))"
    by blast
  then show ?thesis
    by (simp add: l)
qed

end
